theory Spec2Isabelle
  imports Main "HOL-Library.Char_ord" "HOL-Library.List_Lexorder"
begin

section \<open>JavaScript strings\<close>

text \<open>
  A JavaScript string is a \<^typ>\<open>string\<close>, one \<^typ>\<open>char\<close> per code unit. The
  functions below are the library calls the analysis core makes:
  \<^verbatim>\<open>startsWith\<close>, \<^verbatim>\<open>split\<close> on a one-character separator,
  \<^verbatim>\<open>Array.prototype.join\<close>, \<^verbatim>\<open>indexOf\<close> and
  \<^verbatim>\<open>replace\<close> with a string pattern (first occurrence only, the
  replacement text read as a template with its dollar patterns).
\<close>

definition startsWith :: "string \<Rightarrow> string \<Rightarrow> bool" where
  "startsWith s p = (take (length p) s = p)"

fun split_on :: "char \<Rightarrow> string \<Rightarrow> string list" where
  "split_on c [] = [[]]"
| "split_on c (x # xs) =
     (if x = c then [] # split_on c xs
      else (case split_on c xs of [] \<Rightarrow> [[x]] | s # ss \<Rightarrow> (x # s) # ss))"

fun join :: "string \<Rightarrow> string list \<Rightarrow> string" where
  "join sep [] = []"
| "join sep [s] = s"
| "join sep (s # t # ss) = s @ sep @ join sep (t # ss)"

fun indexOf_str :: "string \<Rightarrow> string \<Rightarrow> nat option" where
  "indexOf_str [] pat = (if pat = [] then Some 0 else None)"
| "indexOf_str (c # t) pat =
     (if startsWith (c # t) pat then Some 0 else map_option Suc (indexOf_str t pat))"

text \<open>
  The replacement template of \<^verbatim>\<open>String.prototype.replace\<close> for a string pattern
  (so with no capture groups): \<^verbatim>\<open>$$\<close> is a dollar sign, \<^verbatim>\<open>$&\<close> the matched
  text, \<^verbatim>\<open>$`\<close> the text before the match, \<^verbatim>\<open>$'\<close> the text after it; any
  other dollar sign stands for itself.
\<close>

fun getSubstitution :: "string \<Rightarrow> string \<Rightarrow> string \<Rightarrow> string \<Rightarrow> string" where
  "getSubstitution m b a [] = []"
| "getSubstitution m b a [c] = [c]"
| "getSubstitution m b a (c # d # r) =
     (if c = CHR ''$'' then
        (if d = CHR ''$'' then CHR ''$'' # getSubstitution m b a r
         else if d = CHR ''&'' then m @ getSubstitution m b a r
         else if d = CHR 0x60 then b @ getSubstitution m b a r
         else if d = CHR 0x27 then a @ getSubstitution m b a r
         else c # getSubstitution m b a (d # r))
      else c # getSubstitution m b a (d # r))"

definition js_replace :: "string \<Rightarrow> string \<Rightarrow> string \<Rightarrow> string" where
  "js_replace s pat repl =
     (case indexOf_str s pat of
        None \<Rightarrow> s
      | Some i \<Rightarrow>
          (let pre = take i s; post = drop (i + length pat) s
           in pre @ getSubstitution pat pre post repl @ post))"

text \<open>The line of a match: \<^verbatim>\<open>content.substring(0, index).split('\n').length\<close>.\<close>

definition lineNumberAt :: "string \<Rightarrow> nat \<Rightarrow> nat" where
  "lineNumberAt content idx = length (split_on (CHR 0x0A) (take idx content))"

section \<open>The path module (POSIX)\<close>

text \<open>
  Node's \<^verbatim>\<open>path\<close> module on a POSIX host, where the separator is \<^verbatim>\<open>/\<close>.
  Paths are handled segment by segment: empty segments and \<^verbatim>\<open>.\<close> vanish,
  \<^verbatim>\<open>..\<close> removes the segment before it. \<^verbatim>\<open>resolve\<close> and
  \<^verbatim>\<open>relative\<close> consult the working directory of the process, here the
  argument \<open>cwd\<close> (an absolute path).
\<close>

definition path_sep :: string where
  "path_sep = ''/''"

definition isAbsolute :: "string \<Rightarrow> bool" where
  "isAbsolute p = startsWith p ''/'' "

fun normalizeSegs :: "bool \<Rightarrow> string list \<Rightarrow> string list \<Rightarrow> string list" where
  "normalizeSegs allowAboveRoot res [] = res"
| "normalizeSegs allowAboveRoot res (s # ss) =
     (if s = [] \<or> s = ''.'' then normalizeSegs allowAboveRoot res ss
      else if s = ''..'' then
        (if res \<noteq> [] \<and> last res \<noteq> ''..'' then normalizeSegs allowAboveRoot (butlast res) ss
         else if allowAboveRoot then normalizeSegs allowAboveRoot (res @ [''..'']) ss
         else normalizeSegs allowAboveRoot res ss)
      else normalizeSegs allowAboveRoot (res @ [s]) ss)"

definition normalizeString :: "string \<Rightarrow> bool \<Rightarrow> string" where
  "normalizeString p allowAboveRoot =
     join ''/'' (normalizeSegs allowAboveRoot [] (split_on CHR ''/'' p))"

definition path_normalize :: "string \<Rightarrow> string" where
  "path_normalize p =
     (if p = [] then ''.''
      else
        (let isAbs = isAbsolute p;
             trailingSeparator = (last p = CHR ''/'');
             q = normalizeString p (\<not> isAbs)
         in if q = [] then (if isAbs then ''/'' else if trailingSeparator then ''./'' else ''.'')
            else (let q' = (if trailingSeparator then q @ ''/'' else q)
                  in if isAbs then ''/'' @ q' else q')))"

definition path_join :: "string list \<Rightarrow> string" where
  "path_join args =
     (let parts = filter (\<lambda>a. a \<noteq> []) args
      in if parts = [] then ''.'' else path_normalize (join ''/'' parts))"

text \<open>
  \<^verbatim>\<open>resolve\<close> reads its arguments from the right, then the working directory,
  until the path built so far is absolute.
\<close>

fun resolve_loop :: "string list \<Rightarrow> string \<Rightarrow> string \<times> bool" where
  "resolve_loop [] acc = (acc, False)"
| "resolve_loop (p # ps) acc =
     (if p = [] then resolve_loop ps acc
      else (let acc' = p @ ''/'' @ acc
            in if isAbsolute p then (acc', True) else resolve_loop ps acc'))"

definition path_resolve :: "string \<Rightarrow> string list \<Rightarrow> string" where
  "path_resolve cwd args =
     (case resolve_loop (rev args @ [cwd]) [] of
        (resolvedPath, resolvedAbsolute) \<Rightarrow>
          (let n = normalizeString resolvedPath (\<not> resolvedAbsolute)
           in if resolvedAbsolute then ''/'' @ n
              else if n \<noteq> [] then n else ''.''))"

fun drop_common :: "string list \<Rightarrow> string list \<Rightarrow> string list \<times> string list" where
  "drop_common (a # as) (b # bs) = (if a = b then drop_common as bs else (a # as, b # bs))"
| "drop_common as bs = (as, bs)"

definition path_segments :: "string \<Rightarrow> string list" where
  "path_segments p = filter (\<lambda>s. s \<noteq> []) (split_on CHR ''/'' p)"

definition path_relative :: "string \<Rightarrow> string \<Rightarrow> string \<Rightarrow> string" where
  "path_relative cwd fromPath toPath =
     (if fromPath = toPath then []
      else
        (let f = path_resolve cwd [fromPath]; t = path_resolve cwd [toPath]
         in if f = t then []
            else (case drop_common (path_segments f) (path_segments t) of
                    (fs, ts) \<Rightarrow> join ''/'' (replicate (length fs) ''..'' @ ts))))"

definition path_basename :: "string \<Rightarrow> string" where
  "path_basename p = (case path_segments p of [] \<Rightarrow> [] | s # ss \<Rightarrow> last (s # ss))"

definition path_dirname :: "string \<Rightarrow> string" where
  "path_dirname p =
     (case p of
        [] \<Rightarrow> ''.''
      | c # rest \<Rightarrow>
          (let hasRoot = (c = CHR ''/'');
               r = dropWhile (\<lambda>x. x \<noteq> CHR ''/'') (dropWhile (\<lambda>x. x = CHR ''/'') (rev rest));
               endIdx = length r
           in if r = [] then (if hasRoot then ''/'' else ''.'')
              else if hasRoot \<and> endIdx = 1 then ''//''
              else take endIdx p))"

definition path_extname :: "string \<Rightarrow> string" where
  "path_extname p =
     (let b = path_basename p;
          tail = rev (takeWhile (\<lambda>x. x \<noteq> CHR ''.'') (rev b))
      in if CHR ''.'' \<notin> set b then []
         else if Suc (length tail) = length b then []
         else if b = ''..'' then []
         else CHR ''.'' # tail)"

section \<open>The file collector (codeScanner.ts)\<close>

record CodeFile =
  file_path :: string
  file_relativePath :: string
  file_content :: string
  file_language :: string

text \<open>
  The directory tree as \<^verbatim>\<open>readdir\<close> (with file types) and \<^verbatim>\<open>readFile\<close>
  see it. A regular file carries its text, or nothing when reading it fails; a directory
  carries its entries in the order \<^verbatim>\<open>readdir\<close> lists them, or nothing when
  listing it fails; every other kind of entry (symbolic link, socket, device) is neither
  a file nor a directory to the scanner.
\<close>

datatype fsnode =
    RegularFile "string option"
  | Directory "(string \<times> fsnode) list option"
  | OtherEntry

datatype scan_error = ReaddirFailed string

definition supportedExtensions :: "string list" where
  "supportedExtensions =
     [''.ts'', ''.tsx'', ''.js'', ''.jsx'', ''.py'', ''.java'', ''.cs'', ''.cpp'', ''.c'', ''.h'',
      ''.hpp'', ''.go'', ''.rs'', ''.rb'', ''.php'', ''.swift'', ''.kt'', ''.scala'', ''.dart'',
      ''.vue'', ''.svelte'']"

definition ignorePatterns :: "string list" where
  "ignorePatterns =
     [''node_modules'', ''.git'', ''dist'', ''build'', ''.vscode'', ''out'', ''bin'', ''obj'',
      ''__pycache__'', ''.next'', ''.cache'']"

definition shouldIgnore :: "string \<Rightarrow> bool" where
  "shouldIgnore relativePath =
     (let parts = split_on CHR ''/'' relativePath
      in list_ex (\<lambda>pattern. pattern \<in> set parts) ignorePatterns)"

definition languageMap :: "(string \<times> string) list" where
  "languageMap =
     [(''.ts'', ''typescript''), (''.tsx'', ''typescript''), (''.js'', ''javascript''),
      (''.jsx'', ''javascript''), (''.py'', ''python''), (''.java'', ''java''),
      (''.cs'', ''csharp''), (''.cpp'', ''cpp''), (''.c'', ''c''), (''.h'', ''c''),
      (''.hpp'', ''cpp''), (''.go'', ''go''), (''.rs'', ''rust''), (''.rb'', ''ruby''),
      (''.php'', ''php''), (''.swift'', ''swift''), (''.kt'', ''kotlin''),
      (''.scala'', ''scala''), (''.dart'', ''dart''), (''.vue'', ''vue''),
      (''.svelte'', ''svelte'')]"

definition getLanguageFromExtension :: "string \<Rightarrow> string" where
  "getLanguageFromExtension ext =
     (case map_of languageMap ext of Some l \<Rightarrow> l | None \<Rightarrow> ''unknown'')"

text \<open>
  \<^verbatim>\<open>scanDirectory\<close> lists the current directory and walks its entries in order;
  \<open>scanEntries\<close> is its \<^verbatim>\<open>for\<close> loop. The list \<open>files\<close> is the shared
  accumulator the source pushes into. A failing \<^verbatim>\<open>readdir\<close> rejects the
  promise, which nothing in the scanner catches: the walk stops with the error. A failing
  \<^verbatim>\<open>readFile\<close> is caught and the file skipped.
\<close>

fun scanDirectory :: "string \<Rightarrow> string \<Rightarrow> string \<Rightarrow> fsnode \<Rightarrow> CodeFile list
                        \<Rightarrow> scan_error + CodeFile list"
and scanEntries :: "string \<Rightarrow> string \<Rightarrow> string \<Rightarrow> (string \<times> fsnode) list \<Rightarrow> CodeFile list
                        \<Rightarrow> scan_error + CodeFile list" where
  "scanDirectory cwd rootPath currentPath (Directory (Some entries)) files =
     scanEntries cwd rootPath currentPath entries files"
| "scanDirectory cwd rootPath currentPath (Directory None) files = Inl (ReaddirFailed currentPath)"
| "scanDirectory cwd rootPath currentPath (RegularFile c) files = Inl (ReaddirFailed currentPath)"
| "scanDirectory cwd rootPath currentPath OtherEntry files = Inl (ReaddirFailed currentPath)"
| "scanEntries cwd rootPath currentPath [] files = Inr files"
| "scanEntries cwd rootPath currentPath ((name, entry) # rest) files =
     (let fullPath = path_join [currentPath, name];
          relativePath = path_relative cwd rootPath fullPath
      in if shouldIgnore relativePath then scanEntries cwd rootPath currentPath rest files
         else
           (case entry of
              Directory d \<Rightarrow>
                (case scanDirectory cwd rootPath fullPath entry files of
                   Inl e \<Rightarrow> Inl e
                 | Inr files' \<Rightarrow> scanEntries cwd rootPath currentPath rest files')
            | RegularFile c \<Rightarrow>
                (let ext = path_extname name
                 in if ext \<in> set supportedExtensions then
                      (case c of
                         Some content \<Rightarrow>
                           scanEntries cwd rootPath currentPath rest
                             (files @ [\<lparr>file_path = fullPath, file_relativePath = relativePath,
                                        file_content = content,
                                        file_language = getLanguageFromExtension ext\<rparr>])
                       | None \<Rightarrow> scanEntries cwd rootPath currentPath rest files)
                    else scanEntries cwd rootPath currentPath rest files)
            | OtherEntry \<Rightarrow> scanEntries cwd rootPath currentPath rest files))"

definition scanWorkspace :: "string \<Rightarrow> (string \<Rightarrow> fsnode) \<Rightarrow> string \<Rightarrow> scan_error + CodeFile list" where
  "scanWorkspace cwd tree workspacePath =
     scanDirectory cwd workspacePath workspacePath (tree workspacePath) []"

subsection \<open>What a scan should return\<close>

text \<open>
  The notions the statements about the collector are written in. A name as
  \<^verbatim>\<open>readdir\<close> gives it is not empty, holds no separator and is neither
  \<^verbatim>\<open>.\<close> nor \<^verbatim>\<open>..\<close>; \<open>absPath\<close> is the normalised absolute path with the
  given segments; a tree is clean when all its entry names are.
\<close>

definition cleanName :: "string \<Rightarrow> bool" where
  "cleanName s = (s \<noteq> [] \<and> CHR ''/'' \<notin> set s \<and> s \<noteq> ''.'' \<and> s \<noteq> ''..'')"

definition absPath :: "string list \<Rightarrow> string" where
  "absPath segs = ''/'' @ join ''/'' segs"

fun cleanTree :: "fsnode \<Rightarrow> bool" and cleanEntries :: "(string \<times> fsnode) list \<Rightarrow> bool" where
  "cleanTree (Directory (Some entries)) = cleanEntries entries"
| "cleanTree (Directory None) = True"
| "cleanTree (RegularFile c) = True"
| "cleanTree OtherEntry = True"
| "cleanEntries [] = True"
| "cleanEntries ((name, entry) # rest) = (cleanName name \<and> cleanTree entry \<and> cleanEntries rest)"

text \<open>
  Every readable regular file below a node, with the segments of its path from the node
  and its text, in the order of a depth-first walk that skips nothing.
\<close>

fun regularFiles :: "string list \<Rightarrow> fsnode \<Rightarrow> (string list \<times> string) list"
and regularEntries :: "string list \<Rightarrow> (string \<times> fsnode) list \<Rightarrow> (string list \<times> string) list" where
  "regularFiles pre (Directory (Some entries)) = regularEntries pre entries"
| "regularFiles pre (Directory None) = []"
| "regularFiles pre (RegularFile c) = []"
| "regularFiles pre OtherEntry = []"
| "regularEntries pre [] = []"
| "regularEntries pre ((name, entry) # rest) =
     (case entry of
        RegularFile (Some content) \<Rightarrow> [(pre @ [name], content)]
      | RegularFile None \<Rightarrow> []
      | Directory d \<Rightarrow> regularFiles (pre @ [name]) entry
      | OtherEntry \<Rightarrow> [])
     @ regularEntries pre rest"

text \<open>
  The admission rule in the words of the specification: the extension is in the supported
  set and no segment of the relative path is equal to an ignored name. \<open>collected\<close> is
  the record the collector should produce for an admitted file.
\<close>

definition admitted :: "string list \<Rightarrow> bool" where
  "admitted segs =
     (path_extname (last segs) \<in> set supportedExtensions
      \<and> (\<forall>s\<in>set segs. s \<notin> set ignorePatterns))"

definition collected :: "string list \<Rightarrow> string list \<times> string \<Rightarrow> CodeFile" where
  "collected rsegs f =
     \<lparr>file_path = absPath (rsegs @ fst f), file_relativePath = join ''/'' (fst f),
      file_content = snd f, file_language = getLanguageFromExtension (path_extname (last (fst f)))\<rparr>"



section \<open>The dependency graph (dependencyGraph.ts)\<close>

subsection \<open>Data model\<close>

datatype DependencyType = Import | Require | DynamicImport | Include | Using | From | Export

fun dependencyTypeName :: "DependencyType \<Rightarrow> string" where
  "dependencyTypeName Import = ''import''"
| "dependencyTypeName Require = ''require''"
| "dependencyTypeName DynamicImport = ''dynamic-import''"
| "dependencyTypeName Include = ''include''"
| "dependencyTypeName Using = ''using''"
| "dependencyTypeName From = ''from''"
| "dependencyTypeName Export = ''export''"

text \<open>
  The fields \<^verbatim>\<open>buildGraph\<close> sets when it creates a node or an edge carry their
  value; \<^verbatim>\<open>isCircular\<close> is left out at creation, so it is optional here too
  (\<open>None\<close> is JavaScript's \<^verbatim>\<open>undefined\<close>).
\<close>

record GraphNode =
  node_id :: string
  node_label :: string
  node_path :: string
  node_language :: string
  node_size :: nat
  node_lineCount :: nat
  node_group :: nat
  node_dependencyCount :: nat
  node_dependentCount :: nat
  node_isCircular :: "bool option"

record GraphEdge =
  edge_from :: string
  edge_to :: string
  edge_value :: nat
  edge_count :: nat
  edge_type :: DependencyType
  edge_title :: string
  edge_isCircular :: "bool option"

record Statistics =
  totalNodes :: nat
  totalEdges :: nat
  languages :: "string list"
  circularCount :: nat
  maxDependencies :: nat
  maxDependents :: nat

record GraphData =
  gd_nodes :: "GraphNode list"
  gd_edges :: "GraphEdge list"
  gd_circularDependencies :: "string list list"
  gd_statistics :: Statistics

record DependencyInfo =
  dep_path :: string
  dep_type :: DependencyType
  dep_lineNumber :: "nat option"

text \<open>
  The state of a \<^verbatim>\<open>DependencyGraph\<close> object. The alias table is a JavaScript
  \<^verbatim>\<open>Map\<close>: an association list in insertion order, where setting a key that is
  present replaces its value in place and setting a new key appends it.
\<close>

record DependencyGraph =
  dg_workspacePath :: string
  dg_tsConfigPaths :: "(string \<times> string) list"

definition new_DependencyGraph :: DependencyGraph where
  "new_DependencyGraph = \<lparr>dg_workspacePath = [], dg_tsConfigPaths = []\<rparr>"

fun map_set :: "(string \<times> string) list \<Rightarrow> string \<Rightarrow> string \<Rightarrow> (string \<times> string) list" where
  "map_set [] k v = [(k, v)]"
| "map_set ((k', v') # m) k v = (if k' = k then (k, v) # m else (k', v') # map_set m k v)"

subsection \<open>The host: file system, configuration file, regular expressions\<close>

text \<open>
  What \<^verbatim>\<open>JSON.parse\<close> of \<^verbatim>\<open>tsconfig.json\<close> yields under
  \<^verbatim>\<open>compilerOptions.paths\<close>, as far as the loader looks at it: the entries of the
  object in the order of \<^verbatim>\<open>Object.entries\<close>, each value an array or not, each
  first array element a string or not. \<open>Unusable\<close> stands for every file whose loading
  leaves the table untouched (unreadable, not JSON, no \<^verbatim>\<open>paths\<close>).
\<close>

datatype json_elem = Str string | NonStr

datatype paths_value = Arr "json_elem list" | NotArray

datatype tsconfig_file = Missing | Unusable | Paths "(string \<times> paths_value) list"

text \<open>
  The regular expressions of \<^verbatim>\<open>extractDependencies\<close>. The regular-expression
  engine belongs to the host: \<open>h_exec r content\<close> lists, for the successive matches
  of \<open>r\<close> in \<open>content\<close>, the index of the match and the text of its first group.
  \<^verbatim>\<open>goImportRegex\<close> is the one expression whose group may take no part in a
  match, so it has its own field with an optional group.
\<close>

datatype regex =
    jsImportRegex | jsRequireRegex | jsDynamicImportRegex | jsExportFromRegex
  | pyImportRegex | pyFromImportRegex | javaImportRegex | csharpUsingRegex
  | cIncludeRegex | goImportBlockRegex | blockRegex | rustUseRegex

record host =
  h_cwd :: string
  h_tree :: "string \<Rightarrow> fsnode"
  h_fileExists :: "string \<Rightarrow> bool"
  h_tsconfig :: "string \<Rightarrow> tsconfig_file"
  h_exec :: "regex \<Rightarrow> string \<Rightarrow> (nat \<times> string) list"
  h_execGoImport :: "string \<Rightarrow> (nat \<times> string option) list"

subsection \<open>Loading the path aliases\<close>

text \<open>
  A first array element that is not a string makes \<^verbatim>\<open>value[0].replace\<close> throw;
  the \<^verbatim>\<open>catch\<close> around the loader swallows it, and the entries set before stay.
\<close>

fun loadEntries :: "(string \<times> paths_value) list \<Rightarrow> (string \<times> string) list \<Rightarrow> (string \<times> string) list" where
  "loadEntries [] m = m"
| "loadEntries ((key, v) # es) m =
     (case v of
        Arr (Str s # vs) \<Rightarrow> loadEntries es (map_set m (js_replace key ''/*'' []) (js_replace s ''/*'' []))
      | Arr (NonStr # vs) \<Rightarrow> m
      | Arr [] \<Rightarrow> loadEntries es m
      | NotArray \<Rightarrow> loadEntries es m)"

definition loadTsConfigPaths :: "host \<Rightarrow> DependencyGraph \<Rightarrow> string \<Rightarrow> DependencyGraph" where
  "loadTsConfigPaths h this workspacePath =
     (let tsConfigPath = path_join [workspacePath, ''tsconfig.json'']
      in case h_tsconfig h tsConfigPath of
           Missing \<Rightarrow> this
         | Unusable \<Rightarrow> this
         | Paths es \<Rightarrow> this\<lparr>dg_tsConfigPaths := loadEntries es (dg_tsConfigPaths this)\<rparr>)"

text \<open>
  The assignments \<^verbatim>\<open>loadEntries\<close> makes, in order, and the table after a list of
  assignments; used to reason about loading the same file twice.
\<close>

fun aliasOps :: "(string \<times> paths_value) list \<Rightarrow> (string \<times> string) list" where
  "aliasOps [] = []"
| "aliasOps ((key, v) # es) =
     (case v of
        Arr (Str s # vs) \<Rightarrow> (js_replace key ''/*'' [], js_replace s ''/*'' []) # aliasOps es
      | Arr (NonStr # vs) \<Rightarrow> []
      | Arr [] \<Rightarrow> aliasOps es
      | NotArray \<Rightarrow> aliasOps es)"

definition setAll :: "(string \<times> string) list \<Rightarrow> (string \<times> string) list \<Rightarrow> (string \<times> string) list" where
  "setAll ops m = fold (\<lambda>kv m. map_set m (fst kv) (snd kv)) ops m"

subsection \<open>Node identifiers and language groups\<close>

definition getNodeId :: "string \<Rightarrow> string" where
  "getNodeId relativePath = map (\<lambda>c. if c = CHR 0x5C then CHR ''/'' else c) relativePath"

definition languageGroups :: "(string \<times> nat) list" where
  "languageGroups =
     [(''typescript'', 1), (''javascript'', 1), (''python'', 2), (''java'', 3), (''csharp'', 4),
      (''cpp'', 5), (''c'', 5), (''go'', 6), (''rust'', 7), (''ruby'', 8), (''php'', 9),
      (''swift'', 10), (''kotlin'', 11), (''scala'', 12), (''dart'', 13), (''vue'', 14),
      (''svelte'', 15)]"

definition getLanguageGroup :: "string \<Rightarrow> nat" where
  "getLanguageGroup language = (case map_of languageGroups language of Some g \<Rightarrow> g | None \<Rightarrow> 0)"

subsection \<open>Resolving a reference to a file\<close>

text \<open>
  Every resolver answers with \<^verbatim>\<open>path.relative(workspacePath, hit)\<close>, backslashes
  turned into slashes, or with \<^verbatim>\<open>null\<close> (\<open>None\<close>).
\<close>

definition relativeTo :: "host \<Rightarrow> string \<Rightarrow> string \<Rightarrow> string" where
  "relativeTo h workspacePath p = getNodeId (path_relative (h_cwd h) workspacePath p)"

fun probeExtensions :: "host \<Rightarrow> string \<Rightarrow> string \<Rightarrow> string list \<Rightarrow> string option" where
  "probeExtensions h workspacePath fullPath [] = None"
| "probeExtensions h workspacePath fullPath (ext # exts) =
     (let withExt = fullPath @ ext
      in if h_fileExists h withExt then Some (relativeTo h workspacePath withExt)
         else (let indexPath = path_join [fullPath, ''index'' @ ext]
               in if h_fileExists h indexPath then Some (relativeTo h workspacePath indexPath)
                  else probeExtensions h workspacePath fullPath exts))"

fun resolveAlias :: "host \<Rightarrow> (string \<times> string) list \<Rightarrow> string \<Rightarrow> string \<Rightarrow> string list \<Rightarrow> string option" where
  "resolveAlias h [] importPath workspacePath extensions = None"
| "resolveAlias h ((alias, aliasPath) # rest) importPath workspacePath extensions =
     (if startsWith importPath alias then
        (let relativePath = js_replace importPath alias aliasPath;
             fullPath = path_join [workspacePath, relativePath]
         in case probeExtensions h workspacePath fullPath extensions of
              Some r \<Rightarrow> Some r
            | None \<Rightarrow> resolveAlias h rest importPath workspacePath extensions)
      else resolveAlias h rest importPath workspacePath extensions)"

definition resolveImportPath :: "host \<Rightarrow> DependencyGraph \<Rightarrow> string \<Rightarrow> string \<Rightarrow> string \<Rightarrow> string list \<Rightarrow> string option" where
  "resolveImportPath h this importPath currentDir workspacePath extensions =
     (case resolveAlias h (dg_tsConfigPaths this) importPath workspacePath extensions of
        Some r \<Rightarrow> Some r
      | None \<Rightarrow>
          (if startsWith importPath ''.'' \<or> startsWith importPath ''/'' then
             (let fullPath = path_resolve (h_cwd h) [currentDir, importPath]
              in case probeExtensions h workspacePath fullPath extensions of
                   Some r \<Rightarrow> Some r
                 | None \<Rightarrow>
                     (if h_fileExists h fullPath then Some (relativeTo h workspacePath fullPath)
                      else None))
           else None))"

fun rustLoop :: "host \<Rightarrow> string \<Rightarrow> string \<Rightarrow> string list \<Rightarrow> string option" where
  "rustLoop h workspacePath searchPath [] = None"
| "rustLoop h workspacePath searchPath (part # parts) =
     (let potentialPath = path_join [searchPath, part];
          libFile = path_join [potentialPath, ''lib.rs''];
          modFile = path_join [potentialPath, ''mod.rs''];
          rsFile = potentialPath @ ''.rs''
      in if h_fileExists h libFile then Some (relativeTo h workspacePath libFile)
         else if h_fileExists h modFile then rustLoop h workspacePath potentialPath parts
         else if h_fileExists h rsFile then Some (relativeTo h workspacePath rsFile)
         else None)"

definition resolveRustImport :: "host \<Rightarrow> string \<Rightarrow> string \<Rightarrow> string \<Rightarrow> string option" where
  "resolveRustImport h importPath currentDir workspacePath =
     rustLoop h workspacePath currentDir (split_on CHR ''/'' importPath)"

fun pythonLoop :: "host \<Rightarrow> string \<Rightarrow> string \<Rightarrow> string list \<Rightarrow> string option" where
  "pythonLoop h workspacePath searchPath [] = None"
| "pythonLoop h workspacePath searchPath (part # parts) =
     (let potentialPath = path_join [searchPath, part];
          pyFile = potentialPath @ ''.py'';
          initFile = path_join [potentialPath, ''__init__.py'']
      in if h_fileExists h pyFile then Some (relativeTo h workspacePath pyFile)
         else if h_fileExists h initFile then pythonLoop h workspacePath potentialPath parts
         else None)"

definition resolvePythonImport :: "host \<Rightarrow> string \<Rightarrow> string \<Rightarrow> string \<Rightarrow> string option" where
  "resolvePythonImport h importPath currentDir workspacePath =
     pythonLoop h workspacePath currentDir (split_on CHR ''.'' importPath)"

fun javaLoop :: "host \<Rightarrow> string \<Rightarrow> string \<Rightarrow> string \<Rightarrow> nat \<Rightarrow> string \<Rightarrow> string option" where
  "javaLoop h workspacePath packagePath className 0 searchDir = None"
| "javaLoop h workspacePath packagePath className (Suc n) searchDir =
     (let potentialPath = path_join [searchDir, packagePath, className @ ''.java'']
      in if h_fileExists h potentialPath then Some (relativeTo h workspacePath potentialPath)
         else (let parent = path_dirname searchDir
               in if parent = searchDir then None
                  else javaLoop h workspacePath packagePath className n parent))"

definition resolveJavaImport :: "host \<Rightarrow> string \<Rightarrow> string \<Rightarrow> string \<Rightarrow> string option" where
  "resolveJavaImport h importPath currentDir workspacePath =
     (let parts = split_on CHR ''.'' importPath;
          className = last parts;
          packagePath = join path_sep (butlast parts)
      in javaLoop h workspacePath packagePath className 10 currentDir)"

definition resolveIncludePath :: "host \<Rightarrow> string \<Rightarrow> string \<Rightarrow> string \<Rightarrow> string option" where
  "resolveIncludePath h includePath currentDir workspacePath =
     (let fullPath = path_resolve (h_cwd h) [currentDir, includePath]
      in case find (\<lambda>ext. h_fileExists h (fullPath @ ext)) [''.h'', ''.hpp'', ''.c'', ''.cpp''] of
           Some ext \<Rightarrow> Some (relativeTo h workspacePath (fullPath @ ext))
         | None \<Rightarrow> (if h_fileExists h fullPath then Some (relativeTo h workspacePath fullPath)
                     else None))"

subsection \<open>Extracting the dependencies of a file\<close>

text \<open>
  A resolved reference is kept when it is truthy: not \<^verbatim>\<open>null\<close> and not the empty
  string.
\<close>

definition dependencyOf :: "string option \<Rightarrow> DependencyType \<Rightarrow> nat option \<Rightarrow> DependencyInfo list" where
  "dependencyOf resolved ty lineNumber =
     (case resolved of
        Some r \<Rightarrow> (if r \<noteq> [] then [\<lparr>dep_path = r, dep_type = ty, dep_lineNumber = lineNumber\<rparr>] else [])
      | None \<Rightarrow> [])"

definition lineNumberOr1 :: "string \<Rightarrow> nat \<Rightarrow> nat" where
  "lineNumberOr1 content idx = (if idx \<noteq> 0 then lineNumberAt content idx else 1)"

fun replaceColons :: "string \<Rightarrow> string" where
  "replaceColons (a # b # r) =
     (if a = CHR '':'' \<and> b = CHR '':'' then CHR ''/'' # replaceColons r
      else a # replaceColons (b # r))"
| "replaceColons r = r"

definition jsExtensions :: "string list" where
  "jsExtensions = [''.ts'', ''.tsx'', ''.js'', ''.jsx'']"

definition extractDependencies :: "host \<Rightarrow> DependencyGraph \<Rightarrow> CodeFile \<Rightarrow> string \<Rightarrow> DependencyInfo list" where
  "extractDependencies h this file workspacePath =
     (let content = file_content file;
          dir = path_dirname (file_path file);
          js = (\<lambda>r ty. concat (map (\<lambda>(idx, importPath).
                   dependencyOf (resolveImportPath h this importPath dir workspacePath jsExtensions)
                     ty (Some (lineNumberAt content idx))) (h_exec h r content)))
      in (if file_language file = ''javascript'' \<or> file_language file = ''typescript'' then
            js jsImportRegex Import @ js jsRequireRegex Require
            @ js jsDynamicImportRegex DynamicImport @ js jsExportFromRegex Export
          else [])
       @ (if file_language file = ''python'' then
            concat (map (\<lambda>(idx, importPath).
                dependencyOf (resolvePythonImport h importPath dir workspacePath)
                  Import (Some (lineNumberOr1 content idx))) (h_exec h pyImportRegex content))
            @ concat (map (\<lambda>(idx, importPath).
                dependencyOf (resolvePythonImport h importPath dir workspacePath)
                  From (Some (lineNumberOr1 content idx))) (h_exec h pyFromImportRegex content))
          else [])
       @ (if file_language file = ''java'' then
            concat (map (\<lambda>(idx, importPath).
                dependencyOf (resolveJavaImport h importPath dir workspacePath)
                  Import (Some (lineNumberOr1 content idx))) (h_exec h javaImportRegex content))
          else [])
       @ (if file_language file = ''csharp'' then
            concat (map (\<lambda>(idx, importPath).
                dependencyOf (resolveJavaImport h importPath dir workspacePath)
                  Using (Some (lineNumberOr1 content idx))) (h_exec h csharpUsingRegex content))
          else [])
       @ (if file_language file = ''c'' \<or> file_language file = ''cpp'' then
            concat (map (\<lambda>(idx, includePath).
                dependencyOf (resolveIncludePath h includePath dir workspacePath)
                  Include (Some (lineNumberAt content idx))) (h_exec h cIncludeRegex content))
          else [])
       @ (if file_language file = ''go'' then
            concat (map (\<lambda>(idx, g).
                (case g of
                   Some importPath \<Rightarrow>
                     (if importPath \<noteq> [] then
                        dependencyOf (resolveImportPath h this importPath dir workspacePath [''.go''])
                          Import (Some (lineNumberAt content idx))
                      else [])
                 | None \<Rightarrow> [])) (h_execGoImport h content))
            @ concat (map (\<lambda>(idx, blockContent).
                concat (map (\<lambda>(idx', importPath).
                    dependencyOf (resolveImportPath h this importPath dir workspacePath [''.go''])
                      Import None) (h_exec h blockRegex blockContent)))
                (h_exec h goImportBlockRegex content))
          else [])
       @ (if file_language file = ''rust'' then
            concat (map (\<lambda>(idx, m).
                dependencyOf (resolveRustImport h (replaceColons m) dir workspacePath)
                  Import (Some (lineNumberOr1 content idx))) (h_exec h rustUseRegex content))
          else []))"

subsection \<open>Matching a resolved path to a node\<close>

definition findMatchingNode :: "string \<Rightarrow> GraphNode list \<Rightarrow> string \<Rightarrow> string option" where
  "findMatchingNode depPath nodes workspacePath =
     (case find (\<lambda>n. node_path n = depPath) nodes of
        Some exactMatch \<Rightarrow> Some (node_id exactMatch)
      | None \<Rightarrow>
          (let depBasename = path_basename depPath
           in case find (\<lambda>n. path_basename (node_path n) = depBasename) nodes of
                Some m \<Rightarrow> Some (node_id m)
              | None \<Rightarrow> None))"

subsection \<open>Nodes and edges\<close>

definition makeNode :: "CodeFile \<Rightarrow> GraphNode" where
  "makeNode file =
     \<lparr>node_id = getNodeId (file_relativePath file),
      node_label = path_basename (file_relativePath file),
      node_path = file_relativePath file,
      node_language = file_language file,
      node_size = length (file_content file),
      node_lineCount = length (split_on (CHR 0x0A) (file_content file)),
      node_group = getLanguageGroup (file_language file),
      node_dependencyCount = 0,
      node_dependentCount = 0,
      node_isCircular = None\<rparr>"

text \<open>
  The edge objects live in the array \<open>edges\<close>; \<open>edgeMap\<close> maps a key to the
  position of its edge there, so that updating an edge found through the map updates the
  edge in the array, as the shared object does in the source. The key is the text
  \<^verbatim>\<open>`${sourceId}->${targetId}`\<close>.
\<close>

type_synonym edge_state = "GraphEdge list \<times> (string \<rightharpoonup> nat)"

definition edgeKey :: "string \<Rightarrow> string \<Rightarrow> string" where
  "edgeKey sourceId targetId = sourceId @ ''->'' @ targetId"

definition rightArrow :: string where
  "rightArrow = [CHR 0xE2, CHR 0x86, CHR 0x92]"

definition addDependency :: "GraphNode list \<Rightarrow> string \<Rightarrow> CodeFile \<Rightarrow> string \<Rightarrow> DependencyInfo \<Rightarrow> edge_state \<Rightarrow> edge_state" where
  "addDependency nodes workspacePath file sourceId depInfo st =
     (case st of (edges, edgeMap) \<Rightarrow>
        (case findMatchingNode (dep_path depInfo) nodes workspacePath of
           None \<Rightarrow> st
         | Some targetId \<Rightarrow>
             (if targetId \<noteq> [] \<and> targetId \<noteq> sourceId then
                (case edgeMap (edgeKey sourceId targetId) of
                   Some i \<Rightarrow>
                     (let existingEdge = edges ! i;
                          c = (if edge_count existingEdge = 0 then 1 else edge_count existingEdge) + 1
                      in (edges[i := existingEdge\<lparr>edge_count := c,
                                                  edge_value := min (if c = 0 then 1 else c) 5\<rparr>],
                          edgeMap))
                 | None \<Rightarrow>
                     (let newEdge =
                            \<lparr>edge_from = sourceId, edge_to = targetId, edge_value = 1,
                             edge_count = 1, edge_type = dep_type depInfo,
                             edge_title = path_basename (file_relativePath file) @ '' '' @ rightArrow
                                @ '' '' @ path_basename (dep_path depInfo) @ '' (''
                                @ dependencyTypeName (dep_type depInfo) @ '')'',
                             edge_isCircular = None\<rparr>
                      in (edges @ [newEdge], edgeMap(edgeKey sourceId targetId \<mapsto> length edges))))
              else st)))"

definition addFile :: "host \<Rightarrow> DependencyGraph \<Rightarrow> GraphNode list \<Rightarrow> string \<Rightarrow> CodeFile \<Rightarrow> edge_state \<Rightarrow> edge_state" where
  "addFile h this nodes workspacePath file st =
     (let sourceId = getNodeId (file_relativePath file);
          dependencies = extractDependencies h this file workspacePath
      in fold (addDependency nodes workspacePath file sourceId) dependencies st)"

definition createEdges :: "host \<Rightarrow> DependencyGraph \<Rightarrow> GraphNode list \<Rightarrow> string \<Rightarrow> CodeFile list \<Rightarrow> GraphEdge list" where
  "createEdges h this nodes workspacePath files =
     fst (fold (addFile h this nodes workspacePath) files ([], Map.empty))"

text \<open>\<^verbatim>\<open>find\<close> yields the first element that satisfies the test; the source then
  changes a field of that object.\<close>

fun update_first :: "('a \<Rightarrow> bool) \<Rightarrow> ('a \<Rightarrow> 'a) \<Rightarrow> 'a list \<Rightarrow> 'a list" where
  "update_first P f [] = []"
| "update_first P f (x # xs) = (if P x then f x # xs else x # update_first P f xs)"

definition countEdge :: "GraphEdge \<Rightarrow> GraphNode list \<Rightarrow> GraphNode list" where
  "countEdge edge nodes =
     update_first (\<lambda>n. node_id n = edge_to edge)
       (\<lambda>n. n\<lparr>node_dependentCount := node_dependentCount n + 1\<rparr>)
       (update_first (\<lambda>n. node_id n = edge_from edge)
          (\<lambda>n. n\<lparr>node_dependencyCount := node_dependencyCount n + 1\<rparr>) nodes)"

definition updateCounts :: "GraphEdge list \<Rightarrow> GraphNode list \<Rightarrow> GraphNode list" where
  "updateCounts edges nodes = fold countEdge edges nodes"

subsection \<open>Detecting circular dependencies\<close>

text \<open>
  The adjacency list is a \<^verbatim>\<open>Map\<close> from a node identifier to the array of its
  successors, filled edge by edge. The search keeps three pieces of shared state: the
  cycles recorded so far, the set of visited nodes and the set of nodes on the recursion
  stack.
\<close>

type_synonym adjacency = "(string \<times> string list) list"

fun adj_push :: "adjacency \<Rightarrow> string \<Rightarrow> string \<Rightarrow> adjacency" where
  "adj_push [] k v = [(k, [v])]"
| "adj_push ((k', vs) # m) k v = (if k' = k then (k', vs @ [v]) # m else (k', vs) # adj_push m k v)"

definition neighborsOf :: "adjacency \<Rightarrow> string \<Rightarrow> string list" where
  "neighborsOf adjList nodeId = (case map_of adjList nodeId of Some ns \<Rightarrow> ns | None \<Rightarrow> [])"

record dfs_state =
  circular :: "string list list"
  visited :: "string set"
  recStack :: "string set"

fun indexOf :: "'a list \<Rightarrow> 'a \<Rightarrow> nat option" where
  "indexOf [] x = None"
| "indexOf (y # ys) x = (if y = x then Some 0 else map_option Suc (indexOf ys x))"

text \<open>
  \<^verbatim>\<open>sort\<close> without a comparison function orders strings by their code units and
  sorts the array it is called on. So \<^verbatim>\<open>cycle.sort().join('->')\<close> leaves
  \<open>cycle\<close> itself sorted, and the test inside \<^verbatim>\<open>circular.some\<close> sorts every
  recorded cycle it looks at, up to the first one whose key matches.
\<close>

fun someSorted :: "string \<Rightarrow> string list list \<Rightarrow> bool \<times> string list list" where
  "someSorted cycleKey [] = (False, [])"
| "someSorted cycleKey (c # cs) =
     (let c' = sort c
      in if join ''->'' c' = cycleKey then (True, c' # cs)
         else (case someSorted cycleKey cs of (found, cs') \<Rightarrow> (found, c' # cs')))"

definition recordCycle :: "string \<Rightarrow> string list \<Rightarrow> dfs_state \<Rightarrow> dfs_state" where
  "recordCycle nodeId path s =
     (case indexOf path nodeId of
        None \<Rightarrow> s
      | Some cycleStart \<Rightarrow>
          (let cycle = sort (drop cycleStart path @ [nodeId]);
               cycleKey = join ''->'' cycle
           in case someSorted cycleKey (circular s) of
                (found, circular') \<Rightarrow>
                  (if \<not> found then s\<lparr>circular := circular' @ [cycle]\<rparr>
                   else s\<lparr>circular := circular'\<rparr>)))"

text \<open>
  The inner function \<^verbatim>\<open>dfs\<close>; \<open>dfs_neighbors\<close> is its
  \<^verbatim>\<open>neighbors.forEach\<close>.
\<close>

function dfs :: "adjacency \<Rightarrow> string \<Rightarrow> string list \<Rightarrow> dfs_state \<Rightarrow> dfs_state"
and dfs_neighbors :: "adjacency \<Rightarrow> string list \<Rightarrow> string list \<Rightarrow> dfs_state \<Rightarrow> dfs_state" where
  "dfs adjList nodeId path s =
     (if nodeId \<in> recStack s then recordCycle nodeId path s
      else if nodeId \<in> visited s then s
      else
        (let s1 = s\<lparr>visited := insert nodeId (visited s), recStack := insert nodeId (recStack s)\<rparr>;
             s2 = dfs_neighbors adjList (neighborsOf adjList nodeId) (path @ [nodeId]) s1
         in s2\<lparr>recStack := recStack s2 - {nodeId}\<rparr>))"
| "dfs_neighbors adjList [] path s = s"
| "dfs_neighbors adjList (neighbor # neighbors) path s =
     dfs_neighbors adjList neighbors path (dfs adjList neighbor path s)"
  by pat_completeness auto

text \<open>The search never forgets a visited node, which is why it ends.\<close>

lemma visited_recordCycle: "visited (recordCycle nodeId path s) = visited s"
  by (simp add: recordCycle_def Let_def split: option.splits prod.splits)

lemma dfs_visited_mono_partial:
  "dfs_dfs_neighbors_dom (Inl (adjList, nodeId, path, s)) \<Longrightarrow> visited s \<subseteq> visited (dfs adjList nodeId path s)"
  "dfs_dfs_neighbors_dom (Inr (adjList, ns, path, s)) \<Longrightarrow> visited s \<subseteq> visited (dfs_neighbors adjList ns path s)"
proof (induction adjList nodeId path s and adjList ns path s rule: dfs_dfs_neighbors.pinduct)
  case (1 adjList nodeId path s)
  then show ?case
    by (auto simp: dfs.psimps visited_recordCycle Let_def)
next
  case (2 adjList path s)
  then show ?case by (simp add: dfs_neighbors.psimps)
next
  case (3 adjList neighbor neighbors path s)
  then show ?case by (auto simp: dfs_neighbors.psimps)
qed

lemma neighborsOf_no_key: "nodeId \<notin> fst ` set adjList \<Longrightarrow> neighborsOf adjList nodeId = []"
  by (simp add: neighborsOf_def map_of_eq_None_iff[THEN iffD2])

definition dfs_measure :: "(adjacency \<times> string \<times> string list \<times> dfs_state) + (adjacency \<times> string list \<times> string list \<times> dfs_state) \<Rightarrow> nat \<times> nat" where
  "dfs_measure x = (case x of
      Inl (adjList, nodeId, path, s) \<Rightarrow> (card (fst ` set adjList - visited s), 1)
    | Inr (adjList, ns, path, s) \<Rightarrow> (card (fst ` set adjList - visited s), if ns = [] then 0 else 1 + length ns))"

termination dfs
proof (relation "inv_image (less_than <*lex*> less_than) dfs_measure", goal_cases)
  case 1
  show ?case by (intro wf_inv_image wf_lex_prod wf_less_than)
next
  case (2 adjList nodeId path s x)
  show ?case
  proof (cases "nodeId \<in> fst ` set adjList")
    case True
    have "card (fst ` set adjList - insert nodeId (visited s)) < card (fst ` set adjList - visited s)"
      using True 2 by (intro psubset_card_mono) auto
    then show ?thesis using 2 by (simp add: dfs_measure_def)
  next
    case False
    then show ?thesis using 2 by (simp add: dfs_measure_def neighborsOf_no_key)
  qed
next
  case (3 adjList neighbor neighbors path s)
  then show ?case by (simp add: dfs_measure_def)
next
  case (4 adjList neighbor neighbors path s)
  have "card (fst ` set adjList - visited (dfs adjList neighbor path s)) \<le> card (fst ` set adjList - visited s)"
    using dfs_visited_mono_partial(1)[OF 4] by (intro card_mono) auto
  then show ?case by (auto simp: dfs_measure_def)
qed

definition detectCircularDependencies :: "GraphNode list \<Rightarrow> GraphEdge list \<Rightarrow> string list list" where
  "detectCircularDependencies nodes edges =
     (let adjList = fold (\<lambda>edge adj. adj_push adj (edge_from edge) (edge_to edge)) edges [];
          s = fold (\<lambda>node s. if node_id node \<notin> visited s then dfs adjList (node_id node) [] s else s)
                nodes \<lparr>circular = [], visited = {}, recStack = {}\<rparr>
      in circular s)"

subsection \<open>Marking the cycles, statistics, the whole graph\<close>

definition markCircle :: "string list \<Rightarrow> GraphNode list \<times> GraphEdge list \<Rightarrow> GraphNode list \<times> GraphEdge list" where
  "markCircle circle g =
     (case g of (nodes, edges) \<Rightarrow>
        (fold (\<lambda>nodeId ns. update_first (\<lambda>n. node_id n = nodeId)
                 (\<lambda>n. n\<lparr>node_isCircular := Some True\<rparr>) ns) circle nodes,
         fold (\<lambda>i es. update_first
                 (\<lambda>e. edge_from e = circle ! i \<and> edge_to e = circle ! ((i + 1) mod length circle))
                 (\<lambda>e. e\<lparr>edge_isCircular := Some True\<rparr>) es) [0..<length circle] edges))"

definition distinctValues :: "string list \<Rightarrow> string list" where
  "distinctValues xs = fold (\<lambda>x acc. if x \<in> set acc then acc else acc @ [x]) xs []"

definition maxOf :: "nat list \<Rightarrow> nat" where
  "maxOf xs = fold max (xs @ [0]) 0"

definition buildGraph :: "host \<Rightarrow> DependencyGraph \<Rightarrow> CodeFile list \<Rightarrow> string \<Rightarrow> DependencyGraph \<times> GraphData" where
  "buildGraph h this0 files workspacePath =
     (let this1 = this0\<lparr>dg_workspacePath := workspacePath\<rparr>;
          this = loadTsConfigPaths h this1 workspacePath;
          nodes0 = map makeNode files;
          edges0 = createEdges h this nodes0 workspacePath files;
          nodes1 = updateCounts edges0 nodes0;
          circularDependencies = detectCircularDependencies nodes1 edges0;
          marked = fold markCircle circularDependencies (nodes1, edges0);
          nodes = fst marked;
          edges = snd marked
      in (this,
          \<lparr>gd_nodes = nodes, gd_edges = edges, gd_circularDependencies = circularDependencies,
           gd_statistics =
             \<lparr>totalNodes = length nodes, totalEdges = length edges,
              languages = distinctValues (map node_language nodes),
              circularCount = length circularDependencies,
              maxDependencies = maxOf (map node_dependencyCount nodes),
              maxDependents = maxOf (map node_dependentCount nodes)\<rparr>\<rparr>))"

section \<open>The command (extension.ts)\<close>

text \<open>
  The handler of \<^verbatim>\<open>codeVisualizer.showVisualization\<close>: with no workspace folder it
  reports that; otherwise it scans the first folder with a new scanner, builds the graph
  with a new \<^verbatim>\<open>DependencyGraph\<close> and hands it to the panel. Whatever the
  \<^verbatim>\<open>try\<close> block throws ends in an error message instead.

  Between two runs of the command the extension keeps one thing, the static
  \<^verbatim>\<open>VisualizationPanel.currentPanel\<close>: the \<open>session\<close> is the graph data that
  panel shows, if there is a panel. \<^verbatim>\<open>createOrShow\<close> updates the panel that is
  there or creates one; either way the panel then shows the new data.
\<close>

datatype outcome = NoWorkspaceFolder | ErrorMessage scan_error | Visualization GraphData

type_synonym session = "GraphData option"

definition showVisualization :: "host \<Rightarrow> string list \<Rightarrow> session \<Rightarrow> session \<times> outcome" where
  "showVisualization h workspaceFolders currentPanel =
     (case workspaceFolders of
        [] \<Rightarrow> (currentPanel, NoWorkspaceFolder)
      | workspacePath # others \<Rightarrow>
          (case scanWorkspace (h_cwd h) (h_tree h) workspacePath of
             Inl error \<Rightarrow> (currentPanel, ErrorMessage error)
           | Inr files \<Rightarrow>
               (let graphData = snd (buildGraph h new_DependencyGraph files workspacePath)
                in (Some graphData, Visualization graphData))))"

section \<open>Notions used in the statements\<close>

text \<open>
  A reference is module-root style for an alias table when it begins with neither
  \<^verbatim>\<open>.\<close> nor \<^verbatim>\<open>/\<close> and no alias of the table is a prefix of it.
  \<open>withoutModuleRoot\<close> is the host whose regular-expression engine does not report such
  references for the two expressions that read the references of a Go file
  (\<^verbatim>\<open>goImportRegex\<close>, and \<^verbatim>\<open>blockRegex\<close> inside an import block); everything
  else it does as the host does.
\<close>

definition moduleRoot :: "(string \<times> string) list \<Rightarrow> string \<Rightarrow> bool" where
  "moduleRoot aliases importPath =
     (\<not> startsWith importPath ''.'' \<and> \<not> startsWith importPath ''/''
      \<and> \<not> list_ex (\<lambda>a. startsWith importPath (fst a)) aliases)"

definition withoutModuleRoot :: "(string \<times> string) list \<Rightarrow> host \<Rightarrow> host" where
  "withoutModuleRoot aliases h =
     h\<lparr>h_exec := (\<lambda>r content.
          if r = blockRegex then filter (\<lambda>m. \<not> moduleRoot aliases (snd m)) (h_exec h r content)
          else h_exec h r content),
       h_execGoImport := (\<lambda>content.
          filter (\<lambda>m. case snd m of Some importPath \<Rightarrow> \<not> moduleRoot aliases importPath | None \<Rightarrow> True)
            (h_execGoImport h content))\<rparr>"

section \<open>Example projects\<close>

text \<open>
  A host for concrete projects. Its regular-expression engine knows two of the
  expressions, and those on the texts used below only: for
  \<^verbatim>\<open>pyImportRegex\<close> a line that starts with \<^verbatim>\<open>import\<close> and one space,
  for \<^verbatim>\<open>jsRequireRegex\<close> a call \<^verbatim>\<open>require("...")\<close> written without
  spaces. Its files are the regular files of the tree under \<^verbatim>\<open>/ws\<close>; there is no
  \<^verbatim>\<open>tsconfig.json\<close>.
\<close>

definition wordChar :: "char \<Rightarrow> bool" where
  "wordChar c = (c \<in> set ''abcdefghijklmnopqrstuvwxyzABCDEFGHIJKLMNOPQRSTUVWXYZ0123456789_'')"

fun importLines :: "nat \<Rightarrow> string list \<Rightarrow> (nat \<times> string) list" where
  "importLines i [] = []"
| "importLines i (l # ls) =
     (if startsWith l ''import ''
      then [(i, takeWhile (\<lambda>c. wordChar c \<or> c = CHR ''.'') (drop 7 l))] else [])
     @ importLines (i + length l + 1) ls"

fun requireCalls :: "nat \<Rightarrow> string \<Rightarrow> (nat \<times> string) list" where
  "requireCalls i [] = []"
| "requireCalls i (c # cs) =
     (if startsWith (c # cs) (''require('' @ [CHR 0x22])
      then [(i, takeWhile (\<lambda>x. x \<noteq> CHR 0x22) (drop 8 cs))] else [])
     @ requireCalls (i + 1) cs"

definition example_exec :: "regex \<Rightarrow> string \<Rightarrow> (nat \<times> string) list" where
  "example_exec r content =
     (if r = pyImportRegex then importLines 0 (split_on (CHR 0x0A) content)
      else if r = jsRequireRegex then requireCalls 0 content
      else [])"

fun listFiles :: "string \<Rightarrow> fsnode \<Rightarrow> string list" and listEntries :: "string \<Rightarrow> (string \<times> fsnode) list \<Rightarrow> string list" where
  "listFiles p (RegularFile c) = [p]"
| "listFiles p (Directory None) = []"
| "listFiles p (Directory (Some es)) = listEntries p es"
| "listFiles p OtherEntry = []"
| "listEntries p [] = []"
| "listEntries p ((n, e) # es) = listFiles (p @ ''/'' @ n) e @ listEntries p es"

definition example_host :: "fsnode \<Rightarrow> host" where
  "example_host t =
     \<lparr>h_cwd = ''/'',
      h_tree = (\<lambda>p. if p = ''/ws'' then t else Directory None),
      h_fileExists = (\<lambda>p. p \<in> set (listFiles ''/ws'' t)),
      h_tsconfig = (\<lambda>p. Missing),
      h_exec = example_exec,
      h_execGoImport = (\<lambda>c. [])\<rparr>"

text \<open>A Python module that imports the given modules, one per line.\<close>

definition py :: "string \<Rightarrow> string list \<Rightarrow> string \<times> fsnode" where
  "py name modules = (name, RegularFile (Some (join [CHR 0x0A] (map (\<lambda>m. ''import '' @ m) modules))))"

definition scanned :: "fsnode \<Rightarrow> CodeFile list" where
  "scanned t = (case scanWorkspace ''/'' (\<lambda>p. t) ''/ws'' of Inr files \<Rightarrow> files | Inl e \<Rightarrow> [])"

text \<open>Three modules in a ring: a imports c, c imports b, b imports a.\<close>

definition triangle :: fsnode where
  "triangle = Directory (Some [py ''a.py'' [''c''], py ''b.py'' [''a''], py ''c.py'' [''b'']])"

text \<open>Two rings that share an edge: a imports b and c, b imports a, c imports b.\<close>

definition chord :: fsnode where
  "chord = Directory (Some [py ''a.py'' [''b'', ''c''], py ''b.py'' [''a''], py ''c.py'' [''b'']])"

definition graphOf :: "fsnode \<Rightarrow> GraphData" where
  "graphOf t = snd (buildGraph (example_host t) new_DependencyGraph (scanned t) ''/ws'')"

text \<open>A TypeScript file that calls \<^verbatim>\<open>require\<close> on the given paths, one call per line.\<close>

definition ts :: "string \<Rightarrow> string list \<Rightarrow> string \<times> fsnode" where
  "ts name paths =
     (name, RegularFile (Some (join [CHR 0x0A]
        (map (\<lambda>p. ''require('' @ [CHR 0x22] @ p @ [CHR 0x22] @ '')'') paths))))"

text \<open>
  Four files whose names are legal on a POSIX file system; two of the names contain the
  text \<^verbatim>\<open>->\<close>. \<^verbatim>\<open>x.ts\<close> requires \<^verbatim>\<open>y.ts->z.ts\<close>, and
  \<^verbatim>\<open>x.ts->y.ts\<close> requires \<^verbatim>\<open>z.ts\<close>.
\<close>

definition arrows :: fsnode where
  "arrows = Directory (Some [ts ''x.ts'' [''./y.ts->z''], ts ''x.ts->y.ts'' [''./z''],
                             ts ''y.ts->z.ts'' [], ts ''z.ts'' []])"

text \<open>
  A directory \<^verbatim>\<open>a\<close> with a module \<^verbatim>\<open>b.py\<close> that imports nothing, next to
  a file whose name is \<^verbatim>\<open>a\b.py\<close> (a backslash is an ordinary character of a POSIX
  file name) and which imports \<^verbatim>\<open>c\<close>.
\<close>

definition backslash :: fsnode where
  "backslash = Directory (Some [(''a'', Directory (Some [py ''b.py'' []])),
                                py (''a'' @ [CHR 0x5C] @ ''b.py'') [''c''], py ''c.py'' []])"

text \<open>
  \<^verbatim>\<open>main.py\<close> imports \<^verbatim>\<open>build.util\<close>, a module inside the ignored
  directory \<^verbatim>\<open>build\<close>; another \<^verbatim>\<open>util.py\<close> lives in \<^verbatim>\<open>src\<close>.
\<close>

definition shadow :: fsnode where
  "shadow = Directory (Some [(''build'', Directory (Some [py ''__init__.py'' [], py ''util.py'' []])),
                             py ''main.py'' [''build.util''],
                             (''src'', Directory (Some [py ''util.py'' []]))])"

definition shadow_nodes :: "GraphNode list" where
  "shadow_nodes = map makeNode (scanned shadow)"

definition missing_dep :: DependencyInfo where
  "missing_dep = \<lparr>dep_path = ''lib/missing.py'', dep_type = Import, dep_lineNumber = Some 1\<rparr>"

definition shadowed_dep :: DependencyInfo where
  "shadowed_dep = \<lparr>dep_path = ''build/util.py'', dep_type = Import, dep_lineNumber = Some 1\<rparr>"

text \<open>
  The same project with a second collected \<^verbatim>\<open>util.py\<close>, in \<^verbatim>\<open>lib\<close>, which
  the walk reaches first; a reference that resolves to a collected file, and one that
  resolves to \<^verbatim>\<open>build/main.py\<close>, whose base name is that of the referencing file.
\<close>

definition twins :: fsnode where
  "twins = Directory (Some [(''build'', Directory (Some [py ''__init__.py'' [], py ''util.py'' []])),
                            (''lib'', Directory (Some [py ''util.py'' []])),
                            py ''main.py'' [''build.util''],
                            (''src'', Directory (Some [py ''util.py'' []]))])"

definition twins_nodes :: "GraphNode list" where
  "twins_nodes = map makeNode (scanned twins)"

definition exact_dep :: DependencyInfo where
  "exact_dep = \<lparr>dep_path = ''src/util.py'', dep_type = Import, dep_lineNumber = Some 1\<rparr>"

definition own_dep :: DependencyInfo where
  "own_dep = \<lparr>dep_path = ''build/main.py'', dep_type = Import, dep_lineNumber = Some 1\<rparr>"








text \<open>
  Names that contain an ignored name without being one (\<^verbatim>\<open>buildutils.ts\<close>,
  \<^verbatim>\<open>rebuild\<close>), next to ignored directories at the root and further down.
\<close>

definition substrings :: fsnode where
  "substrings = Directory (Some
     [(''build'', Directory (Some [ts ''gen.ts'' []])),
      ts ''buildutils.ts'' [],
      (''notes.txt'', RegularFile (Some ''plain text'')),
      (''rebuild'', Directory (Some [ts ''x.ts'' []])),
      (''src'', Directory (Some [(''node_modules'', Directory (Some [ts ''dep.ts'' []])),
                                 ts ''main.ts'' []]))])"






section \<open>Properties of the collector\<close>

subsection \<open>Paths of clean names\<close>

lemma split_on_no_sep: "c \<notin> set s \<Longrightarrow> split_on c s = [s]"
  by (induction s) auto

lemma split_on_append: "c \<notin> set s \<Longrightarrow> split_on c (s @ c # t) = s # split_on c t"
  by (induction s) auto

lemma split_on_nonempty [simp]: "split_on c s \<noteq> []"
  by (induction s) (auto split: list.splits)

lemma join_Cons: "ss \<noteq> [] \<Longrightarrow> join sep (s # ss) = s @ sep @ join sep ss"
  by (cases ss) simp_all

lemma join_snoc: "ss \<noteq> [] \<Longrightarrow> join sep (ss @ [s]) = join sep ss @ sep @ s"
proof (induction ss)
  case Nil
  then show ?case by simp
next
  case (Cons a ss)
  then show ?case by (cases ss) simp_all
qed

lemma split_join:
  "segs \<noteq> [] \<Longrightarrow> \<forall>s\<in>set segs. c \<notin> set s \<Longrightarrow> split_on c (join [c] segs) = segs"
proof (induction segs)
  case Nil
  then show ?case by simp
next
  case (Cons s segs)
  show ?case
  proof (cases segs)
    case Nil
    then show ?thesis using Cons.prems by (simp add: split_on_no_sep)
  next
    case (Cons t ts)
    then have "join [c] (s # segs) = s @ c # join [c] segs" by simp
    then show ?thesis using Cons.IH Cons.prems Cons by (simp add: split_on_append)
  qed
qed

lemma normalizeSegs_clean:
  "\<forall>s\<in>set segs. cleanName s \<Longrightarrow> normalizeSegs a res segs = res @ segs"
  by (induction segs arbitrary: res) (auto simp: cleanName_def)

lemma normalizeSegs_empty_first [simp]: "normalizeSegs a res ([] # segs) = normalizeSegs a res segs"
  by simp

lemma split_absPath:
  assumes "\<forall>s\<in>set segs. cleanName s"
  shows "filter (\<lambda>s. s \<noteq> []) (split_on CHR ''/'' (absPath segs)) = segs"
proof (cases segs)
  case Nil
  then show ?thesis by (simp add: absPath_def)
next
  case (Cons s ss)
  have "split_on CHR ''/'' (join ''/'' segs) = segs"
    using assms Cons by (intro split_join) (auto simp: cleanName_def)
  then have "split_on CHR ''/'' (absPath segs) = [] # segs"
    by (simp add: absPath_def)
  moreover have "filter (\<lambda>s. s \<noteq> []) segs = segs"
    using assms by (auto simp: cleanName_def intro: filter_True)
  ultimately show ?thesis by simp
qed

lemma normalizeSegs_filter:
  "normalizeSegs a res segs = normalizeSegs a res (filter (\<lambda>s. s \<noteq> []) segs)"
  by (induction segs arbitrary: res) auto

lemma normalizeString_clean:
  assumes "filter (\<lambda>s. s \<noteq> []) (split_on CHR ''/'' p) = segs" and "\<forall>s\<in>set segs. cleanName s"
  shows "normalizeString p a = join ''/'' segs"
proof -
  have "normalizeSegs a [] (split_on CHR ''/'' p) = normalizeSegs a [] segs"
    using assms(1) normalizeSegs_filter by metis
  then show ?thesis using assms(2) by (simp add: normalizeString_def normalizeSegs_clean)
qed

lemma path_segments_absPath: "\<forall>s\<in>set segs. cleanName s \<Longrightarrow> path_segments (absPath segs) = segs"
  by (simp add: path_segments_def split_absPath)

lemma absPath_inj:
  "\<forall>s\<in>set a. cleanName s \<Longrightarrow> \<forall>s\<in>set b. cleanName s \<Longrightarrow> absPath a = absPath b \<Longrightarrow> a = b"
  by (metis path_segments_absPath)

lemma isAbsolute_absPath [simp]: "isAbsolute (absPath segs)"
  by (simp add: isAbsolute_def absPath_def startsWith_def)

lemma absPath_nonempty [simp]: "absPath segs \<noteq> []"
  by (simp add: absPath_def)

lemma split_on_sep_append: "split_on c (p @ c # q) = split_on c p @ split_on c q"
proof (induction p)
  case Nil
  then show ?case by simp
next
  case (Cons x p)
  obtain s ss where "split_on c p = s # ss"
    by (cases "split_on c p") simp_all
  then show ?case using Cons by simp
qed

lemma filter_split_append_sep:
  "filter (\<lambda>s. s \<noteq> []) (split_on c (p @ c # q))
     = filter (\<lambda>s. s \<noteq> []) (split_on c p) @ filter (\<lambda>s. s \<noteq> []) (split_on c q)"
  by (simp add: split_on_sep_append)

lemma path_resolve_absPath:
  assumes "\<forall>s\<in>set segs. cleanName s"
  shows "path_resolve cwd [absPath segs] = absPath segs"
proof -
  have "filter (\<lambda>s. s \<noteq> []) (split_on CHR ''/'' (absPath segs @ ''/'')) = segs"
    using filter_split_append_sep[of "CHR ''/''" "absPath segs" "[]"] assms
    by (simp add: split_absPath)
  then have "normalizeString (absPath segs @ ''/'') False = join ''/'' segs"
    using assms by (rule normalizeString_clean)
  then show ?thesis
    by (simp add: path_resolve_def Let_def) (simp add: absPath_def)
qed

lemma path_join_absPath:
  assumes "\<forall>s\<in>set segs. cleanName s" and "cleanName name"
  shows "path_join [absPath segs, name] = absPath (segs @ [name])"
proof -
  let ?p = "absPath segs @ ''/'' @ name"
  have n: "name \<noteq> []" "CHR ''/'' \<notin> set name" using assms(2) by (simp_all add: cleanName_def)
  have "filter (\<lambda>s. s \<noteq> []) (split_on CHR ''/'' ?p) = segs @ [name]"
    using filter_split_append_sep[of "CHR ''/''" "absPath segs" name] assms(1) n
    by (simp add: split_absPath split_on_no_sep)
  moreover have "\<forall>s\<in>set (segs @ [name]). cleanName s" using assms by simp
  ultimately have q: "normalizeString ?p False = join ''/'' (segs @ [name])"
    by (rule normalizeString_clean)
  have "join ''/'' (segs @ [name]) \<noteq> []"
  proof (cases "segs = []")
    case True
    then show ?thesis using n by simp
  next
    case False
    then show ?thesis using join_snoc[OF False, of "''/''" name] by simp
  qed
  moreover have "last ?p \<noteq> CHR ''/''"
    using n by (metis append_assoc last_appendR last_in_set)
  moreover have "isAbsolute ?p"
    by (simp add: isAbsolute_def absPath_def startsWith_def)
  moreover have "?p \<noteq> []" by simp
  ultimately have pn: "path_normalize ?p = ''/'' @ join ''/'' (segs @ [name])"
    using q by (simp only: path_normalize_def Let_def if_False if_True simp_thms)
  have "path_join [absPath segs, name] = path_normalize ?p"
    using n by (simp add: path_join_def)
  then show ?thesis
    using pn by (simp add: absPath_def)
qed

lemma drop_common_prefix: "drop_common a (a @ b) = ([], b)"
  by (induction a) simp_all

lemma path_relative_absPath:
  assumes "\<forall>s\<in>set rsegs. cleanName s" and "\<forall>s\<in>set segs. cleanName s" and "segs \<noteq> []"
  shows "path_relative cwd (absPath rsegs) (absPath (rsegs @ segs)) = join ''/'' segs"
proof -
  have all: "\<forall>s\<in>set (rsegs @ segs). cleanName s" using assms by auto
  have ne: "absPath rsegs \<noteq> absPath (rsegs @ segs)"
    using absPath_inj[OF assms(1) all] assms(3) by auto
  show ?thesis
    using ne by (simp add: path_relative_def Let_def path_resolve_absPath[OF assms(1)]
        path_resolve_absPath[OF all] path_segments_absPath[OF assms(1)] path_segments_absPath[OF all]
        drop_common_prefix)
qed

lemma shouldIgnore_segments:
  assumes "\<forall>s\<in>set segs. cleanName s" and "segs \<noteq> []"
  shows "shouldIgnore (join ''/'' segs) \<longleftrightarrow> (\<exists>s\<in>set segs. s \<in> set ignorePatterns)"
proof -
  have "split_on CHR ''/'' (join ''/'' segs) = segs"
    using assms by (intro split_join) (auto simp: cleanName_def)
  then show ?thesis
    by (auto simp: shouldIgnore_def Let_def list_ex_iff)
qed

subsection \<open>Which files are collected\<close>

lemma regularFiles_prefix:
  "\<forall>f\<in>set (regularFiles pre t). set pre \<subseteq> set (fst f)"
  "\<forall>f\<in>set (regularEntries pre es). set pre \<subseteq> set (fst f)"
  by (induction pre t and pre es rule: regularFiles_regularEntries.induct)
     (auto split: fsnode.splits option.splits)

lemma not_admitted_below:
  assumes "\<exists>s\<in>set pre. s \<in> set ignorePatterns"
  shows "filter (\<lambda>f. admitted (fst f)) (regularFiles pre t) = []"
    and "filter (\<lambda>f. admitted (fst f)) (regularEntries pre es) = []"
  using assms regularFiles_prefix(1)[of pre t] regularFiles_prefix(2)[of pre es]
  by (auto simp: filter_empty_conv admitted_def)

lemma scan_collects:
  "\<forall>rsegs pre fs. rootPath = absPath rsegs \<longrightarrow> currentPath = absPath (rsegs @ pre)
      \<longrightarrow> (\<forall>s\<in>set (rsegs @ pre). cleanName s) \<longrightarrow> cleanTree t
      \<longrightarrow> scanDirectory cwd rootPath currentPath t files = Inr fs
      \<longrightarrow> fs = files @ map (collected rsegs) (filter (\<lambda>f. admitted (fst f)) (regularFiles pre t))"
  "\<forall>rsegs pre fs. rootPath = absPath rsegs \<longrightarrow> currentPath = absPath (rsegs @ pre)
      \<longrightarrow> (\<forall>s\<in>set (rsegs @ pre). cleanName s) \<longrightarrow> cleanEntries es
      \<longrightarrow> scanEntries cwd rootPath currentPath es files = Inr fs
      \<longrightarrow> fs = files @ map (collected rsegs) (filter (\<lambda>f. admitted (fst f)) (regularEntries pre es))"
proof (induction cwd rootPath currentPath t files and cwd rootPath currentPath es files
       rule: scanDirectory_scanEntries.induct)
  case (6 cwd rootPath currentPath name entry rest files)
  let ?full = "path_join [currentPath, name]"
  let ?rel = "path_relative cwd rootPath ?full"
  show ?case
  proof (intro allI impI)
    fix rsegs pre fs
    assume root: "rootPath = absPath rsegs" and cur: "currentPath = absPath (rsegs @ pre)"
      and clean: "\<forall>s\<in>set (rsegs @ pre). cleanName s"
      and ce: "cleanEntries ((name, entry) # rest)"
      and scan: "scanEntries cwd rootPath currentPath ((name, entry) # rest) files = Inr fs"
    have cn: "cleanName name" and ct: "cleanTree entry" and cr: "cleanEntries rest"
      using ce by simp_all
    have clean': "\<forall>s\<in>set (rsegs @ pre @ [name]). cleanName s"
      using clean cn by auto
    have full: "?full = absPath (rsegs @ pre @ [name])"
      unfolding cur using path_join_absPath[OF clean cn] by simp
    have rel: "?rel = join ''/'' (pre @ [name])"
      unfolding full root using clean' by (intro path_relative_absPath) auto
    have ign: "shouldIgnore ?rel \<longleftrightarrow> (\<exists>s\<in>set (pre @ [name]). s \<in> set ignorePatterns)"
      unfolding rel using clean' by (intro shouldIgnore_segments) auto
    let ?A = "\<lambda>f. admitted (fst f)"
    show "fs = files @ map (collected rsegs) (filter ?A (regularEntries pre ((name, entry) # rest)))"
    proof (cases "shouldIgnore ?rel")
      case True
      then have skip: "scanEntries cwd rootPath currentPath rest files = Inr fs"
        using scan by (simp add: Let_def)
      have "fs = files @ map (collected rsegs) (filter ?A (regularEntries pre rest))"
        using 6(1)[OF refl refl True] root cur clean cr skip by blast
      moreover have "filter ?A (regularFiles (pre @ [name]) entry) = []"
        using True ign by (intro not_admitted_below(1)) simp
      moreover have "\<not> admitted (pre @ [name])"
        using True ign by (auto simp: admitted_def)
      ultimately show ?thesis
        by (cases entry) (simp_all split: option.splits)
    next
      case False
      then have noign: "\<forall>s\<in>set (pre @ [name]). s \<notin> set ignorePatterns"
        using ign by blast
      show ?thesis
      proof (cases entry)
        case (RegularFile c)
        show ?thesis
        proof (cases "path_extname name \<in> set supportedExtensions")
          case True
          then have adm: "admitted (pre @ [name])"
            using noign by (simp add: admitted_def)
          show ?thesis
          proof (cases c)
            case None
            then have "scanEntries cwd rootPath currentPath rest files = Inr fs"
              using scan False RegularFile True by (simp add: Let_def)
            then have "fs = files @ map (collected rsegs) (filter ?A (regularEntries pre rest))"
              using 6(2)[OF refl refl False RegularFile refl True None] root cur clean cr by blast
            then show ?thesis using RegularFile None by simp
          next
            case (Some content)
            let ?f = "\<lparr>file_path = ?full, file_relativePath = ?rel, file_content = content,
                       file_language = getLanguageFromExtension (path_extname name)\<rparr>"
            have "scanEntries cwd rootPath currentPath rest (files @ [?f]) = Inr fs"
              using scan False RegularFile True Some by (simp add: Let_def)
            then have "fs = (files @ [?f]) @ map (collected rsegs) (filter ?A (regularEntries pre rest))"
              using 6(3)[OF refl refl False RegularFile refl True Some] root cur clean cr by blast
            moreover have "?f = collected rsegs (pre @ [name], content)"
              using rel unfolding full by (simp add: collected_def)
            ultimately show ?thesis using RegularFile Some adm by simp
          qed
        next
          case no: False
          then have "\<not> admitted (pre @ [name])" by (simp add: admitted_def)
          moreover have "scanEntries cwd rootPath currentPath rest files = Inr fs"
            using scan False RegularFile no by (simp add: Let_def)
          then have "fs = files @ map (collected rsegs) (filter ?A (regularEntries pre rest))"
            using 6(4)[OF refl refl False RegularFile refl no] root cur clean cr by blast
          ultimately show ?thesis using RegularFile by (simp split: option.splits)
        qed
      next
        case (Directory d)
        from scan False Directory obtain fs' where
          sd: "scanDirectory cwd rootPath ?full entry files = Inr fs'"
          and sr: "scanEntries cwd rootPath currentPath rest fs' = Inr fs"
          by (auto simp: Let_def split: sum.splits)
        have "fs' = files @ map (collected rsegs) (filter ?A (regularFiles (pre @ [name]) entry))"
          using 6(5)[OF refl refl False Directory] root full clean' ct sd
          by (metis append_assoc)
        moreover have "fs = fs' @ map (collected rsegs) (filter ?A (regularEntries pre rest))"
          using 6(6)[OF refl refl False Directory sd] root cur clean cr sr by blast
        ultimately show ?thesis using Directory by simp
      next
        case OtherEntry
        then have "scanEntries cwd rootPath currentPath rest files = Inr fs"
          using scan False by (simp add: Let_def)
        then have "fs = files @ map (collected rsegs) (filter ?A (regularEntries pre rest))"
          using 6(7)[OF refl refl False OtherEntry] root cur clean cr by blast
        then show ?thesis using OtherEntry by simp
      qed
    qed
  qed
qed auto

text \<open>
  Claim C7. For a workspace root that is a normalised absolute path and a tree with names
  as \<^verbatim>\<open>readdir\<close> gives them, a scan that ends without a traversal failure returns
  exactly the readable regular files whose extension is in the supported set and none of
  whose relative path segments is equal to an ignored name, in the order of the walk. A
  name that only contains an ignored name is not a reason to skip a file or a directory.
\<close>

theorem collector_admits:
  assumes "\<forall>s\<in>set rsegs. cleanName s"
    and "cleanTree (tree (absPath rsegs))"
    and "scanWorkspace cwd tree (absPath rsegs) = Inr files"
  shows "files = map (collected rsegs)
                   (filter (\<lambda>f. admitted (fst f)) (regularFiles [] (tree (absPath rsegs))))"
proof -
  have "scanDirectory cwd (absPath rsegs) (absPath (rsegs @ [])) (tree (absPath rsegs)) [] = Inr files"
    using assms(3) by (simp add: scanWorkspace_def)
  moreover have "\<forall>s\<in>set (rsegs @ []). cleanName s"
    using assms(1) by simp
  ultimately have "files = [] @ map (collected rsegs)
      (filter (\<lambda>f. admitted (fst f)) (regularFiles [] (tree (absPath rsegs))))"
    using scan_collects(1)[rule_format, OF refl refl _ assms(2)] by blast
  then show ?thesis by simp
qed

theorem collector_admits_witness:
  "map fst (regularFiles [] substrings)
     = [[''build'', ''gen.ts''], [''buildutils.ts''], [''notes.txt''], [''rebuild'', ''x.ts''],
        [''src'', ''node_modules'', ''dep.ts''], [''src'', ''main.ts'']]
   \<and> map file_relativePath (scanned substrings) = [''buildutils.ts'', ''rebuild/x.ts'', ''src/main.ts'']
   \<and> scanned substrings
       = map (collected [''ws'']) (filter (\<lambda>f. admitted (fst f)) (regularFiles [] substrings))"
proof -
  have a: "\<forall>s\<in>set [''ws'']. cleanName s"
    by code_simp
  have b: "cleanTree ((\<lambda>p. substrings) (absPath [''ws'']))"
    by code_simp
  have c: "scanWorkspace ''/'' (\<lambda>p. substrings) (absPath [''ws'']) = Inr (scanned substrings)"
    by code_simp
  have d: "map fst (regularFiles [] substrings)
     = [[''build'', ''gen.ts''], [''buildutils.ts''], [''notes.txt''], [''rebuild'', ''x.ts''],
        [''src'', ''node_modules'', ''dep.ts''], [''src'', ''main.ts'']]"
    by code_simp
  have e: "map file_relativePath (scanned substrings) = [''buildutils.ts'', ''rebuild/x.ts'', ''src/main.ts'']"
    by code_simp
  show ?thesis
    using collector_admits[OF a b c] d e by simp
qed

subsection \<open>Read failures\<close>





section \<open>Properties of the graph builder\<close>

subsection \<open>Edges join nodes\<close>

lemma findMatchingNode_id:
  "findMatchingNode depPath nodes workspacePath = Some t \<Longrightarrow> t \<in> node_id ` set nodes"
  by (auto simp: findMatchingNode_def Let_def find_Some_iff split: option.splits)

lemma update_first_map_eq:
  "(\<And>x. g (f x) = g x) \<Longrightarrow> map g (update_first P f xs) = map g xs"
  by (induction xs) auto

lemma length_update_first [simp]: "length (update_first P f xs) = length xs"
  by (induction xs) auto

definition endpoints_in :: "string set \<Rightarrow> string set \<Rightarrow> GraphEdge list \<Rightarrow> bool" where
  "endpoints_in F T edges = (\<forall>e\<in>set edges. edge_from e \<in> F \<and> edge_to e \<in> T)"

lemma in_set_update_cases: "e \<in> set (xs[i := x]) \<Longrightarrow> e = x \<or> e \<in> set xs"
  using set_update_subset_insert[of xs i x] by blast

lemma endpoints_in_update:
  assumes "endpoints_in F T edges"
  shows "endpoints_in F T (edges[i := (edges ! i)\<lparr>edge_count := c, edge_value := v\<rparr>])"
proof (cases "i < length edges")
  case True
  then have "edges ! i \<in> set edges" by simp
  then have "edge_from (edges ! i) \<in> F \<and> edge_to (edges ! i) \<in> T"
    using assms by (simp add: endpoints_in_def)
  then show ?thesis
    using assms by (auto simp: endpoints_in_def dest!: in_set_update_cases)
next
  case False
  then have "edges[i := (edges ! i)\<lparr>edge_count := c, edge_value := v\<rparr>] = edges"
    by (intro list_update_beyond) simp
  then show ?thesis using assms by simp
qed

lemma addDependency_endpoints:
  assumes "endpoints_in F (node_id ` set nodes) (fst st)" and "sourceId \<in> F"
  shows "endpoints_in F (node_id ` set nodes) (fst (addDependency nodes ws file sourceId depInfo st))"
proof (cases st)
  case (Pair edges edgeMap)
  show ?thesis
  proof (cases "findMatchingNode (dep_path depInfo) nodes ws")
    case None
    then show ?thesis using assms Pair by (simp add: addDependency_def)
  next
    case (Some targetId)
    then have t: "targetId \<in> node_id ` set nodes" by (rule findMatchingNode_id)
    show ?thesis
    proof (cases "edgeMap (edgeKey sourceId targetId)")
      case None
      then show ?thesis using assms Pair Some t
        by (auto simp: addDependency_def endpoints_in_def Let_def)
    next
      case (Some i)
      have "endpoints_in F (node_id ` set nodes) (edges[i := (edges ! i)\<lparr>edge_count := c, edge_value := v\<rparr>])" for c v
        using assms(1) Pair by (simp add: endpoints_in_update)
      then show ?thesis using assms Pair \<open>findMatchingNode _ _ _ = Some targetId\<close> Some
        by (simp add: addDependency_def Let_def)
    qed
  qed
qed

lemma fold_addDependency_endpoints:
  assumes "endpoints_in F (node_id ` set nodes) (fst st)" and "sourceId \<in> F"
  shows "endpoints_in F (node_id ` set nodes) (fst (fold (addDependency nodes ws file sourceId) deps st))"
  using assms
proof (induction deps arbitrary: st)
  case Nil
  then show ?case by simp
next
  case (Cons d deps)
  have "endpoints_in F (node_id ` set nodes) (fst (addDependency nodes ws file sourceId d st))"
    using Cons.prems by (rule addDependency_endpoints)
  then show ?case using Cons by simp
qed

lemma fold_addFile_endpoints:
  assumes "endpoints_in F (node_id ` set nodes) (fst st)"
    and "\<forall>f\<in>set files. getNodeId (file_relativePath f) \<in> F"
  shows "endpoints_in F (node_id ` set nodes) (fst (fold (addFile h this nodes ws) files st))"
  using assms
proof (induction files arbitrary: st)
  case Nil
  then show ?case by simp
next
  case (Cons f files)
  have "endpoints_in F (node_id ` set nodes) (fst (addFile h this nodes ws f st))"
    unfolding addFile_def Let_def using Cons.prems by (intro fold_addDependency_endpoints) auto
  then show ?case using Cons by simp
qed

lemma node_id_makeNode [simp]: "node_id (makeNode f) = getNodeId (file_relativePath f)"
  by (simp add: makeNode_def)

lemma createEdges_endpoints:
  "endpoints_in (node_id ` set (map makeNode files)) (node_id ` set (map makeNode files))
     (createEdges h this (map makeNode files) ws files)"
  unfolding createEdges_def
  by (rule fold_addFile_endpoints) (auto simp: endpoints_in_def image_iff intro!: bexI)

lemma fold_update_first_map:
  "(\<And>x. g (f x) = g x) \<Longrightarrow> map g (fold (\<lambda>a ys. update_first (P a) f ys) as xs) = map g xs"
  by (induction as arbitrary: xs) (simp_all add: update_first_map_eq)

lemma markCircle_nodes_map:
  assumes "\<And>n. g (n\<lparr>node_isCircular := Some True\<rparr>) = g n"
  shows "map g (fst (markCircle c gr)) = map g (fst gr)"
  using assms by (cases gr) (simp add: markCircle_def fold_update_first_map)

lemma markCircle_edges_map:
  assumes "\<And>e. g (e\<lparr>edge_isCircular := Some True\<rparr>) = g e"
  shows "map g (snd (markCircle c gr)) = map g (snd gr)"
  using assms by (cases gr) (simp add: markCircle_def fold_update_first_map)

lemma fold_markCircle_nodes_map:
  assumes "\<And>n. g (n\<lparr>node_isCircular := Some True\<rparr>) = g n"
  shows "map g (fst (fold markCircle cs gr)) = map g (fst gr)"
  using assms by (induction cs arbitrary: gr) (simp_all add: markCircle_nodes_map)

lemma fold_markCircle_edges_map:
  assumes "\<And>e. g (e\<lparr>edge_isCircular := Some True\<rparr>) = g e"
  shows "map g (snd (fold markCircle cs gr)) = map g (snd gr)"
  using assms by (induction cs arbitrary: gr) (simp_all add: markCircle_edges_map)

lemma countEdge_ids [simp]: "map node_id (countEdge e nodes) = map node_id nodes"
  by (simp add: countEdge_def update_first_map_eq)

lemma updateCounts_ids [simp]: "map node_id (updateCounts es nodes) = map node_id nodes"
  unfolding updateCounts_def by (induction es arbitrary: nodes) simp_all

text \<open>The graph data of a build, field by field.\<close>

lemma fst_buildGraph:
  "fst (buildGraph h this0 files ws) = loadTsConfigPaths h (this0\<lparr>dg_workspacePath := ws\<rparr>) ws"
  by (simp add: buildGraph_def Let_def)

lemma buildGraph_node_ids:
  "map node_id (gd_nodes (snd (buildGraph h this0 files ws))) = map (getNodeId \<circ> file_relativePath) files"
  by (simp add: buildGraph_def Let_def fold_markCircle_nodes_map)

lemma buildGraph_edges_map:
  assumes "\<And>e. g (e\<lparr>edge_isCircular := Some True\<rparr>) = g e"
  shows "map g (gd_edges (snd (buildGraph h this0 files ws)))
       = map g (createEdges h (loadTsConfigPaths h (this0\<lparr>dg_workspacePath := ws\<rparr>) ws) (map makeNode files) ws files)"
  using assms by (simp add: buildGraph_def Let_def fold_markCircle_edges_map)

lemma buildGraph_nodes_map:
  assumes "\<And>n. g (n\<lparr>node_isCircular := Some True\<rparr>) = g n"
  shows "map g (gd_nodes (snd (buildGraph h this0 files ws)))
       = map g (updateCounts (createEdges h (loadTsConfigPaths h (this0\<lparr>dg_workspacePath := ws\<rparr>) ws) (map makeNode files) ws files) (map makeNode files))"
  using assms by (simp add: buildGraph_def Let_def fold_markCircle_nodes_map)

lemma buildGraph_id_set:
  "node_id ` set (gd_nodes (snd (buildGraph h this0 files ws))) = node_id ` set (map makeNode files)"
proof -
  have "set (map node_id (gd_nodes (snd (buildGraph h this0 files ws))))
      = set (map node_id (map makeNode files))"
    by (simp only: buildGraph_node_ids) (simp add: comp_def)
  then show ?thesis by (simp only: set_map)
qed

text \<open>
  Claim C10. In the graph data that \<^verbatim>\<open>buildGraph\<close> returns, the source and the
  target of every edge are identifiers of nodes of the node list.
\<close>

theorem edge_endpoints_are_nodes:
  "\<forall>e\<in>set (gd_edges (snd (buildGraph h this0 files workspacePath))).
     edge_from e \<in> node_id ` set (gd_nodes (snd (buildGraph h this0 files workspacePath)))
     \<and> edge_to e \<in> node_id ` set (gd_nodes (snd (buildGraph h this0 files workspacePath)))"
proof
  fix e
  let ?g = "snd (buildGraph h this0 files workspacePath)"
  let ?es = "createEdges h (loadTsConfigPaths h (this0\<lparr>dg_workspacePath := workspacePath\<rparr>) workspacePath)
               (map makeNode files) workspacePath files"
  let ?ids = "node_id ` set (map makeNode files)"
  assume e: "e \<in> set (gd_edges ?g)"
  have from_eq: "map edge_from (gd_edges ?g) = map edge_from ?es"
    by (rule buildGraph_edges_map) simp
  have to_eq: "map edge_to (gd_edges ?g) = map edge_to ?es"
    by (rule buildGraph_edges_map) simp
  have "edge_from e \<in> set (map edge_from (gd_edges ?g))" "edge_to e \<in> set (map edge_to (gd_edges ?g))"
    using e by simp_all
  then have "edge_from e \<in> edge_from ` set ?es" "edge_to e \<in> edge_to ` set ?es"
    unfolding from_eq to_eq by simp_all
  moreover have "endpoints_in ?ids ?ids ?es"
    by (rule createEdges_endpoints)
  ultimately have "edge_from e \<in> ?ids \<and> edge_to e \<in> ?ids"
    unfolding endpoints_in_def by auto
  then show "edge_from e \<in> node_id ` set (gd_nodes ?g) \<and> edge_to e \<in> node_id ` set (gd_nodes ?g)"
    by (simp only: buildGraph_id_set)
qed

theorem edge_endpoints_are_nodes_witness:
  "gd_edges (snd (buildGraph (example_host triangle) new_DependencyGraph (scanned triangle) ''/ws'')) \<noteq> []
   \<and> edge_from (hd (gd_edges (snd (buildGraph (example_host triangle) new_DependencyGraph (scanned triangle) ''/ws''))))
       \<in> node_id ` set (gd_nodes (snd (buildGraph (example_host triangle) new_DependencyGraph (scanned triangle) ''/ws'')))
   \<and> edge_to (hd (gd_edges (snd (buildGraph (example_host triangle) new_DependencyGraph (scanned triangle) ''/ws''))))
       \<in> node_id ` set (gd_nodes (snd (buildGraph (example_host triangle) new_DependencyGraph (scanned triangle) ''/ws'')))"
proof -
  let ?g = "snd (buildGraph (example_host triangle) new_DependencyGraph (scanned triangle) ''/ws'')"
  have ne: "gd_edges ?g \<noteq> []"
    by code_simp
  then have "hd (gd_edges ?g) \<in> set (gd_edges ?g)"
    by simp
  then show ?thesis
    using ne edge_endpoints_are_nodes[of "example_host triangle" new_DependencyGraph "scanned triangle" "''/ws''"]
    by blast
qed

subsection \<open>Edge aggregation when identifiers are well formed\<close>

text \<open>
  The edge loop keeps an invariant between the edges, the edge map and the references
  processed so far (the pairs of a source identifier and what \<^verbatim>\<open>findMatchingNode\<close>
  answered). A reference is \<open>effective\<close> when its target is not empty and not the
  source. The invariant needs the keys of different pairs to differ, which holds when no
  source identifier contains the text \<^verbatim>\<open>->\<close>.
\<close>

definition containsArrow :: "string \<Rightarrow> bool" where
  "containsArrow s = (\<exists>a b. s = a @ ''->'' @ b)"

definition effective :: "string \<Rightarrow> string \<Rightarrow> bool" where
  "effective s t = (t \<noteq> [] \<and> t \<noteq> s)"

lemma edgeKey_longer:
  assumes "s @ ''->'' @ t = (s @ u) @ ''->'' @ t'" and "u \<noteq> []"
  shows "containsArrow (s @ u)"
proof -
  from assms(1) have eq: "''->'' @ t = u @ ''->'' @ t'" by simp
  obtain c u' where u: "u = c # u'" using assms(2) by (cases u) auto
  with eq have c: "c = CHR ''-''" and eq': "''>'' @ t = u' @ ''->'' @ t'" by simp_all
  show ?thesis
  proof (cases u')
    case Nil
    then show ?thesis using eq' by simp
  next
    case (Cons d u'')
    then have "d = CHR ''>''" using eq' by simp
    then have "s @ u = s @ ''->'' @ u''" using u c Cons by simp
    then show ?thesis unfolding containsArrow_def by blast
  qed
qed

lemma edgeKey_inj:
  assumes "\<not> containsArrow s" and "\<not> containsArrow s'" and "edgeKey s t = edgeKey s' t'"
  shows "s = s' \<and> t = t'"
proof -
  from assms(3) have eq: "s @ ''->'' @ t = s' @ ''->'' @ t'" by (simp add: edgeKey_def)
  then obtain u where "s = s' @ u \<and> u @ ''->'' @ t = ''->'' @ t' \<or> s @ u = s' \<and> ''->'' @ t = u @ ''->'' @ t'"
    by (auto simp: append_eq_append_conv2)
  then have "u = []"
  proof
    assume a: "s = s' @ u \<and> u @ ''->'' @ t = ''->'' @ t'"
    show ?thesis
    proof (rule ccontr)
      assume ne: "u \<noteq> []"
      have "s' @ ''->'' @ t' = (s' @ u) @ ''->'' @ t" using a by simp
      then have "containsArrow (s' @ u)" using ne by (rule edgeKey_longer)
      then show False using a assms(1) by simp
    qed
  next
    assume a: "s @ u = s' \<and> ''->'' @ t = u @ ''->'' @ t'"
    show ?thesis
    proof (rule ccontr)
      assume ne: "u \<noteq> []"
      have "s @ ''->'' @ t = (s @ u) @ ''->'' @ t'" using a by simp
      then have "containsArrow (s @ u)" using ne by (rule edgeKey_longer)
      then show False using a assms(2) by simp
    qed
  qed
  then show ?thesis using eq \<open>_ \<or> _\<close> by auto
qed


definition edges_inv :: "(string \<times> string option) list \<Rightarrow> GraphEdge list \<Rightarrow> (string \<rightharpoonup> nat) \<Rightarrow> bool" where
  "edges_inv tr edges m \<longleftrightarrow>
     (\<forall>i<length edges. m (edgeKey (edge_from (edges ! i)) (edge_to (edges ! i))) = Some i)
   \<and> (\<forall>k i. m k = Some i \<longrightarrow> i < length edges \<and> k = edgeKey (edge_from (edges ! i)) (edge_to (edges ! i)))
   \<and> (\<forall>i<length edges. effective (edge_from (edges ! i)) (edge_to (edges ! i))
         \<and> \<not> containsArrow (edge_from (edges ! i))
         \<and> edge_count (edges ! i) = count_list tr (edge_from (edges ! i), Some (edge_to (edges ! i)))
         \<and> 0 < edge_count (edges ! i)
         \<and> edge_value (edges ! i) = min (edge_count (edges ! i)) 5)
   \<and> (\<forall>s t. (s, Some t) \<in> set tr \<longrightarrow> effective s t \<longrightarrow> m (edgeKey s t) \<noteq> None)"

lemma edges_invD:
  assumes "edges_inv tr edges m"
  shows "i < length edges \<Longrightarrow> m (edgeKey (edge_from (edges ! i)) (edge_to (edges ! i))) = Some i"
    and "m k = Some i \<Longrightarrow> i < length edges \<and> k = edgeKey (edge_from (edges ! i)) (edge_to (edges ! i))"
    and "i < length edges \<Longrightarrow> effective (edge_from (edges ! i)) (edge_to (edges ! i))"
    and "i < length edges \<Longrightarrow> \<not> containsArrow (edge_from (edges ! i))"
    and "i < length edges \<Longrightarrow> edge_count (edges ! i) = count_list tr (edge_from (edges ! i), Some (edge_to (edges ! i)))"
    and "i < length edges \<Longrightarrow> 0 < edge_count (edges ! i)"
    and "i < length edges \<Longrightarrow> edge_value (edges ! i) = min (edge_count (edges ! i)) 5"
    and "(s, Some t) \<in> set tr \<Longrightarrow> effective s t \<Longrightarrow> m (edgeKey s t) \<noteq> None"
  using assms unfolding edges_inv_def by blast+

lemma count_list_snoc: "count_list (xs @ [x]) y = count_list xs y + (if x = y then 1 else 0)"
  by (induction xs) auto

lemma edges_inv_skip:
  assumes inv: "edges_inv tr edges m"
    and skip: "\<And>t. x = (sourceId, Some t) \<Longrightarrow> \<not> effective sourceId t"
    and src: "fst x = sourceId"
  shows "edges_inv (tr @ [x]) edges m"
  unfolding edges_inv_def
proof (intro conjI allI impI)
  fix i assume "i < length edges"
  then show "m (edgeKey (edge_from (edges ! i)) (edge_to (edges ! i))) = Some i"
    by (rule edges_invD(1)[OF inv])
next
  fix k i assume "m k = Some i"
  then show "i < length edges" "k = edgeKey (edge_from (edges ! i)) (edge_to (edges ! i))"
    using edges_invD(2)[OF inv] by blast+
next
  fix i assume i: "i < length edges"
  show "effective (edge_from (edges ! i)) (edge_to (edges ! i))"
    by (rule edges_invD(3)[OF inv i])
  show "\<not> containsArrow (edge_from (edges ! i))"
    by (rule edges_invD(4)[OF inv i])
  have "x \<noteq> (edge_from (edges ! i), Some (edge_to (edges ! i)))"
    using skip src edges_invD(3)[OF inv i] by (cases x) auto
  then show "edge_count (edges ! i) = count_list (tr @ [x]) (edge_from (edges ! i), Some (edge_to (edges ! i)))"
    using edges_invD(5)[OF inv i] by (simp add: count_list_snoc)
  show "0 < edge_count (edges ! i)"
    by (rule edges_invD(6)[OF inv i])
  show "edge_value (edges ! i) = min (edge_count (edges ! i)) 5"
    by (rule edges_invD(7)[OF inv i])
next
  fix s t assume "(s, Some t) \<in> set (tr @ [x])" and e: "effective s t"
  then have "(s, Some t) \<in> set tr"
    using skip src by auto
  then show "m (edgeKey s t) \<noteq> None"
    using e by (rule edges_invD(8)[OF inv])
qed

lemma edges_inv_new:
  assumes inv: "edges_inv tr edges m"
    and eff: "effective sourceId t"
    and arrow: "\<not> containsArrow sourceId"
    and none: "m (edgeKey sourceId t) = None"
    and new: "edge_from e = sourceId" "edge_to e = t" "edge_count e = 1" "edge_value e = 1"
  shows "edges_inv (tr @ [(sourceId, Some t)]) (edges @ [e]) (m(edgeKey sourceId t \<mapsto> length edges))"
proof -
  let ?key = "edgeKey sourceId t"
  have other: "edgeKey (edge_from (edges ! i)) (edge_to (edges ! i)) \<noteq> ?key" if "i < length edges" for i
    using edges_invD(1)[OF inv that] none by auto
  then have pair: "(edge_from (edges ! i), Some (edge_to (edges ! i))) \<noteq> (sourceId, Some t)"
    if "i < length edges" for i
    using that by auto
  have fresh: "count_list tr (sourceId, Some t) = 0"
    using edges_invD(8)[OF inv _ eff] none by (auto simp: count_list_0_iff)
  show ?thesis
    unfolding edges_inv_def
  proof (intro conjI allI impI)
    fix i assume "i < length (edges @ [e])"
    then consider "i < length edges" | "i = length edges" by fastforce
    then show "(m(?key \<mapsto> length edges)) (edgeKey (edge_from ((edges @ [e]) ! i)) (edge_to ((edges @ [e]) ! i))) = Some i"
    proof cases
      case 1
      then show ?thesis using other[OF 1] edges_invD(1)[OF inv 1] by (simp add: nth_append)
    next
      case 2
      then show ?thesis using new by simp
    qed
  next
    fix k i assume a: "(m(?key \<mapsto> length edges)) k = Some i"
    show "i < length (edges @ [e])"
      using a edges_invD(2)[OF inv, of k i] by (auto split: if_splits)
    show "k = edgeKey (edge_from ((edges @ [e]) ! i)) (edge_to ((edges @ [e]) ! i))"
    proof (cases "k = ?key")
      case True
      then have "i = length edges" using a by simp
      then show ?thesis using True new by simp
    next
      case False
      then have "m k = Some i" using a by simp
      then show ?thesis using edges_invD(2)[OF inv, of k i] by (simp add: nth_append)
    qed
  next
    fix i assume il: "i < length (edges @ [e])"
    have all: "effective (edge_from ((edges @ [e]) ! i)) (edge_to ((edges @ [e]) ! i))
        \<and> \<not> containsArrow (edge_from ((edges @ [e]) ! i))
        \<and> edge_count ((edges @ [e]) ! i)
            = count_list (tr @ [(sourceId, Some t)]) (edge_from ((edges @ [e]) ! i), Some (edge_to ((edges @ [e]) ! i)))
        \<and> 0 < edge_count ((edges @ [e]) ! i)
        \<and> edge_value ((edges @ [e]) ! i) = min (edge_count ((edges @ [e]) ! i)) 5"
    proof (cases "i < length edges")
      case True
      then show ?thesis
        using edges_invD(3-7)[OF inv True] pair[OF True]
        by (auto simp: nth_append count_list_snoc)
    next
      case False
      then have "i = length edges" using il by simp
      then show ?thesis
        using new eff arrow fresh by (simp add: count_list_snoc)
    qed
    from all show "effective (edge_from ((edges @ [e]) ! i)) (edge_to ((edges @ [e]) ! i))"
      by blast
    from all show "\<not> containsArrow (edge_from ((edges @ [e]) ! i))"
      by blast
    from all show "edge_count ((edges @ [e]) ! i)
          = count_list (tr @ [(sourceId, Some t)]) (edge_from ((edges @ [e]) ! i), Some (edge_to ((edges @ [e]) ! i)))"
      by blast
    from all show "0 < edge_count ((edges @ [e]) ! i)"
      by blast
    from all show "edge_value ((edges @ [e]) ! i) = min (edge_count ((edges @ [e]) ! i)) 5"
      by blast
  next
    fix s t' assume "(s, Some t') \<in> set (tr @ [(sourceId, Some t)])" and e: "effective s t'"
    then consider "(s, Some t') \<in> set tr" | "s = sourceId \<and> t' = t" by auto
    then show "(m(?key \<mapsto> length edges)) (edgeKey s t') \<noteq> None"
    proof cases
      case 1
      then show ?thesis using edges_invD(8)[OF inv 1 e] by simp
    next
      case 2
      then show ?thesis by simp
    qed
  qed
qed


lemma edges_inv_update:
  assumes inv: "edges_inv tr edges m"
    and eff: "effective sourceId t"
    and arrow: "\<not> containsArrow sourceId"
    and some: "m (edgeKey sourceId t) = Some i"
    and c: "c = (if edge_count (edges ! i) = 0 then 1 else edge_count (edges ! i)) + 1"
  shows "edges_inv (tr @ [(sourceId, Some t)])
           (edges[i := (edges ! i)\<lparr>edge_count := c, edge_value := min (if c = 0 then 1 else c) 5\<rparr>]) m"
proof -
  let ?e' = "(edges ! i)\<lparr>edge_count := c, edge_value := min (if c = 0 then 1 else c) 5\<rparr>"
  let ?edges' = "edges[i := ?e']"
  have i: "i < length edges" and key: "edgeKey sourceId t = edgeKey (edge_from (edges ! i)) (edge_to (edges ! i))"
    using edges_invD(2)[OF inv some] by simp_all
  have st: "edge_from (edges ! i) = sourceId" "edge_to (edges ! i) = t"
    using edgeKey_inj[OF arrow edges_invD(4)[OF inv i] key] by simp_all
  have ends: "edge_from (?edges' ! j) = edge_from (edges ! j)" "edge_to (?edges' ! j) = edge_to (edges ! j)"
    if "j < length edges" for j
    using that by (cases "j = i"; simp)+
  have c': "c = edge_count (edges ! i) + 1"
    using c edges_invD(6)[OF inv i] by simp
  have only: "j = i" if "j < length edges" "edge_from (edges ! j) = sourceId" "edge_to (edges ! j) = t" for j
    using edges_invD(1)[OF inv that(1)] that(2,3) some by simp
  show ?thesis
    unfolding edges_inv_def
  proof (intro conjI allI impI)
    fix j assume "j < length ?edges'"
    then have j: "j < length edges" by simp
    show "m (edgeKey (edge_from (?edges' ! j)) (edge_to (?edges' ! j))) = Some j"
      unfolding ends[OF j] by (rule edges_invD(1)[OF inv j])
  next
    fix k j assume a: "m k = Some j"
    then have j: "j < length edges" using edges_invD(2)[OF inv a] by simp
    then show "j < length ?edges'" by simp
    show "k = edgeKey (edge_from (?edges' ! j)) (edge_to (?edges' ! j))"
      unfolding ends[OF j] using edges_invD(2)[OF inv a] by simp
  next
    fix j assume "j < length ?edges'"
    then have j: "j < length edges" by simp
    have all: "effective (edge_from (?edges' ! j)) (edge_to (?edges' ! j))
        \<and> \<not> containsArrow (edge_from (?edges' ! j))
        \<and> edge_count (?edges' ! j)
            = count_list (tr @ [(sourceId, Some t)]) (edge_from (?edges' ! j), Some (edge_to (?edges' ! j)))
        \<and> 0 < edge_count (?edges' ! j)
        \<and> edge_value (?edges' ! j) = min (edge_count (?edges' ! j)) 5"
    proof (cases "j = i")
      case True
      have "edge_count (?edges' ! j) = c" "edge_value (?edges' ! j) = min (if c = 0 then 1 else c) 5"
        using True i by simp_all
      then show ?thesis
        unfolding ends[OF j]
        using True st c' edges_invD(3-5)[OF inv i] by (simp add: count_list_snoc)
    next
      case False
      then have same: "?edges' ! j = edges ! j" by simp
      have "(edge_from (edges ! j), Some (edge_to (edges ! j))) \<noteq> (sourceId, Some t)"
        using only[OF j] False by auto
      then show ?thesis
        unfolding same using edges_invD(3-7)[OF inv j] by (auto simp: count_list_snoc)
    qed
    from all show "effective (edge_from (?edges' ! j)) (edge_to (?edges' ! j))"
      by blast
    from all show "\<not> containsArrow (edge_from (?edges' ! j))"
      by blast
    from all show "edge_count (?edges' ! j)
          = count_list (tr @ [(sourceId, Some t)]) (edge_from (?edges' ! j), Some (edge_to (?edges' ! j)))"
      by blast
    from all show "0 < edge_count (?edges' ! j)"
      by blast
    from all show "edge_value (?edges' ! j) = min (edge_count (?edges' ! j)) 5"
      by blast
  next
    fix s t' assume "(s, Some t') \<in> set (tr @ [(sourceId, Some t)])" and e: "effective s t'"
    then consider "(s, Some t') \<in> set tr" | "s = sourceId \<and> t' = t" by auto
    then show "m (edgeKey s t') \<noteq> None"
    proof cases
      case 1
      then show ?thesis using edges_invD(8)[OF inv 1 e] by simp
    next
      case 2
      then show ?thesis using some by simp
    qed
  qed
qed

lemma addDependency_inv:
  assumes inv: "edges_inv tr edges m"
    and arrow: "\<not> containsArrow sourceId"
    and step: "addDependency nodes ws file sourceId d (edges, m) = (edges', m')"
  shows "edges_inv (tr @ [(sourceId, findMatchingNode (dep_path d) nodes ws)]) edges' m'"
proof (cases "findMatchingNode (dep_path d) nodes ws")
  case None
  then have "edges' = edges" "m' = m" using step by (simp_all add: addDependency_def)
  then show ?thesis using None edges_inv_skip[OF inv, of "(sourceId, None)" sourceId] by simp
next
  case (Some t)
  show ?thesis
  proof (cases "effective sourceId t")
    case False
    then have "edges' = edges" "m' = m"
      using step Some by (auto simp: addDependency_def effective_def)
    then show ?thesis
      using Some False edges_inv_skip[OF inv, of "(sourceId, Some t)" sourceId] by simp
  next
    case True
    then have cond: "t \<noteq> [] \<and> t \<noteq> sourceId" by (simp add: effective_def)
    show ?thesis
    proof (cases "m (edgeKey sourceId t)")
      case None
      let ?e = "\<lparr>edge_from = sourceId, edge_to = t, edge_value = 1, edge_count = 1, edge_type = dep_type d,
                  edge_title = path_basename (file_relativePath file) @ '' '' @ rightArrow
                     @ '' '' @ path_basename (dep_path d) @ '' (''
                     @ dependencyTypeName (dep_type d) @ '')'',
                  edge_isCircular = None\<rparr>"
      have "edges' = edges @ [?e]" "m' = m(edgeKey sourceId t \<mapsto> length edges)"
        using step Some cond None by (simp_all add: addDependency_def Let_def)
      then show ?thesis
        using Some edges_inv_new[OF inv True arrow None, of ?e] by simp
    next
      case (Some i)
      let ?c = "(if edge_count (edges ! i) = 0 then 1 else edge_count (edges ! i)) + 1"
      have "edges' = edges[i := (edges ! i)\<lparr>edge_count := ?c, edge_value := min (if ?c = 0 then 1 else ?c) 5\<rparr>]"
        "m' = m"
        using step \<open>findMatchingNode (dep_path d) nodes ws = Some t\<close> cond Some
        by (simp_all add: addDependency_def Let_def)
      then show ?thesis
        using \<open>findMatchingNode (dep_path d) nodes ws = Some t\<close>
          edges_inv_update[OF inv True arrow Some refl] by simp
    qed
  qed
qed

lemma fold_addDependency_inv:
  assumes "edges_inv tr (fst st) (snd st)" and "\<not> containsArrow sourceId"
  shows "edges_inv (tr @ map (\<lambda>d. (sourceId, findMatchingNode (dep_path d) nodes ws)) deps)
           (fst (fold (addDependency nodes ws file sourceId) deps st))
           (snd (fold (addDependency nodes ws file sourceId) deps st))"
  using assms
proof (induction deps arbitrary: tr st)
  case Nil
  then show ?case by simp
next
  case (Cons d deps)
  obtain edges m where st: "st = (edges, m)" by (cases st)
  obtain edges' m' where step: "addDependency nodes ws file sourceId d (edges, m) = (edges', m')"
    by (cases "addDependency nodes ws file sourceId d (edges, m)")
  have "edges_inv (tr @ [(sourceId, findMatchingNode (dep_path d) nodes ws)]) edges' m'"
    using Cons.prems st by (intro addDependency_inv[OF _ _ step]) simp_all
  then have "edges_inv (tr @ [(sourceId, findMatchingNode (dep_path d) nodes ws)])
      (fst (addDependency nodes ws file sourceId d st)) (snd (addDependency nodes ws file sourceId d st))"
    using step st by simp
  from Cons.IH[OF this Cons.prems(2)] show ?case by simp
qed

definition references :: "host \<Rightarrow> DependencyGraph \<Rightarrow> GraphNode list \<Rightarrow> string \<Rightarrow> CodeFile \<Rightarrow> (string \<times> string option) list" where
  "references h this nodes ws file =
     map (\<lambda>d. (getNodeId (file_relativePath file), findMatchingNode (dep_path d) nodes ws))
       (extractDependencies h this file ws)"

lemma fold_addFile_inv:
  assumes "edges_inv tr (fst st) (snd st)"
    and "\<forall>f\<in>set files. \<not> containsArrow (getNodeId (file_relativePath f))"
  shows "edges_inv (tr @ concat (map (references h this nodes ws) files))
           (fst (fold (addFile h this nodes ws) files st))
           (snd (fold (addFile h this nodes ws) files st))"
  using assms
proof (induction files arbitrary: tr st)
  case Nil
  then show ?case by simp
next
  case (Cons f files)
  have "edges_inv (tr @ references h this nodes ws f)
      (fst (addFile h this nodes ws f st)) (snd (addFile h this nodes ws f st))"
    unfolding addFile_def references_def Let_def
    using Cons.prems by (intro fold_addDependency_inv) simp_all
  from Cons.IH[OF this] Cons.prems(2) show ?case by simp
qed

lemma edges_inv_empty: "edges_inv [] [] Map.empty"
  by (simp add: edges_inv_def)

lemma createEdges_inv:
  assumes "\<forall>f\<in>set files. \<not> containsArrow (getNodeId (file_relativePath f))"
  shows "\<exists>m. edges_inv (concat (map (references h this nodes ws) files)) (createEdges h this nodes ws files) m"
proof -
  have "edges_inv ([] @ concat (map (references h this nodes ws) files))
           (fst (fold (addFile h this nodes ws) files ([], Map.empty)))
           (snd (fold (addFile h this nodes ws) files ([], Map.empty)))"
    using assms by (intro fold_addFile_inv) (simp_all add: edges_inv_empty)
  then show ?thesis unfolding createEdges_def by auto
qed


lemma edges_inv_pair:
  assumes inv: "edges_inv tr edges m"
    and src: "\<forall>p\<in>set tr. \<not> containsArrow (fst p)"
    and AB: "effective A B"
  shows "length (filter (\<lambda>e. edge_from e = A \<and> edge_to e = B) edges)
           = (if count_list tr (A, Some B) = 0 then 0 else 1)"
    and "\<forall>e\<in>set edges. edge_from e = A \<and> edge_to e = B
           \<longrightarrow> edge_count e = count_list tr (A, Some B) \<and> edge_value e = min (count_list tr (A, Some B)) 5"
    and "\<forall>e\<in>set edges. edge_from e \<noteq> edge_to e"
proof -
  let ?S = "{i. i < length edges \<and> edge_from (edges ! i) = A \<and> edge_to (edges ! i) = B}"
  have len: "length (filter (\<lambda>e. edge_from e = A \<and> edge_to e = B) edges) = card ?S"
    by (rule length_filter_conv_card)
  have uniq: "i = j" if "i \<in> ?S" "j \<in> ?S" for i j
    using edges_invD(1)[OF inv, of i] edges_invD(1)[OF inv, of j] that by simp
  show "length (filter (\<lambda>e. edge_from e = A \<and> edge_to e = B) edges)
           = (if count_list tr (A, Some B) = 0 then 0 else 1)"
  proof (cases "count_list tr (A, Some B) = 0")
    case True
    have "?S = {}"
    proof (rule ccontr)
      assume "?S \<noteq> {}"
      then obtain i where i: "i < length edges" "edge_from (edges ! i) = A" "edge_to (edges ! i) = B"
        by blast
      then show False using edges_invD(5,6)[OF inv i(1)] True by simp
    qed
    then show ?thesis using True len by simp
  next
    case False
    then have mem: "(A, Some B) \<in> set tr" by (simp add: count_list_0_iff)
    then obtain i where i: "m (edgeKey A B) = Some i"
      using edges_invD(8)[OF inv mem AB] by auto
    have il: "i < length edges" and key: "edgeKey A B = edgeKey (edge_from (edges ! i)) (edge_to (edges ! i))"
      using edges_invD(2)[OF inv i] by simp_all
    have "\<not> containsArrow A" using src mem by force
    then have "A = edge_from (edges ! i) \<and> B = edge_to (edges ! i)"
      using edgeKey_inj[OF _ edges_invD(4)[OF inv il] key] by simp
    then have "i \<in> ?S" using il by simp
    then have "?S = {i}" using uniq by blast
    then show ?thesis using False len by simp
  qed
  show "\<forall>e\<in>set edges. edge_from e = A \<and> edge_to e = B
           \<longrightarrow> edge_count e = count_list tr (A, Some B) \<and> edge_value e = min (count_list tr (A, Some B)) 5"
  proof (intro ballI impI)
    fix e assume "e \<in> set edges" and e: "edge_from e = A \<and> edge_to e = B"
    then obtain i where i: "i < length edges" "edges ! i = e" by (auto simp: in_set_conv_nth)
    show "edge_count e = count_list tr (A, Some B) \<and> edge_value e = min (count_list tr (A, Some B)) 5"
      using edges_invD(5,7)[OF inv i(1)] i(2) e by simp
  qed
  show "\<forall>e\<in>set edges. edge_from e \<noteq> edge_to e"
  proof
    fix e assume "e \<in> set edges"
    then obtain i where i: "i < length edges" "edges ! i = e" by (auto simp: in_set_conv_nth)
    show "edge_from e \<noteq> edge_to e"
      using edges_invD(3)[OF inv i(1)] i(2) by (auto simp: effective_def)
  qed
qed

lemma count_list_map_pair:
  "count_list (map (\<lambda>d. (k, g d)) ds) (k, v) = length (filter (\<lambda>d. g d = v) ds)"
  by (induction ds) auto

lemma count_list_other_key: "k \<noteq> k' \<Longrightarrow> count_list (map (\<lambda>d. (k, g d)) ds) (k', v) = 0"
  by (induction ds) auto

lemma count_list_concat: "count_list (concat xss) x = sum_list (map (\<lambda>xs. count_list xs x) xss)"
  by (induction xss) (simp_all add: count_list_append)


lemma count_references_self:
  "count_list (references h this nodes ws a) (getNodeId (file_relativePath a), Some B)
     = length (filter (\<lambda>d. findMatchingNode (dep_path d) nodes ws = Some B) (extractDependencies h this a ws))"
  by (simp add: references_def count_list_map_pair)

lemma count_references_other:
  "getNodeId (file_relativePath f) \<noteq> A \<Longrightarrow> count_list (references h this nodes ws f) (A, x) = 0"
  by (simp add: references_def count_list_other_key)

lemma count_references:
  assumes "distinct (map (getNodeId \<circ> file_relativePath) files)" and "a \<in> set files"
  shows "count_list (concat (map (references h this nodes ws) files)) (getNodeId (file_relativePath a), Some B)
     = length (filter (\<lambda>d. findMatchingNode (dep_path d) nodes ws = Some B) (extractDependencies h this a ws))"
  using assms
proof (induction files)
  case Nil
  then show ?case by simp
next
  case (Cons f files)
  let ?A = "getNodeId (file_relativePath a)"
  show ?case
  proof (cases "a \<in> set files")
    case True
    then have "getNodeId (file_relativePath f) \<noteq> ?A"
      using Cons.prems(1) by (auto simp: image_iff)
    then have "count_list (references h this nodes ws f) (?A, Some B) = 0"
      by (rule count_references_other)
    then show ?thesis using Cons.IH True Cons.prems(1) by (simp add: count_list_append)
  next
    case False
    then have fa: "f = a" using Cons.prems(2) by simp
    have "\<forall>g\<in>set files. getNodeId (file_relativePath g) \<noteq> ?A"
      using Cons.prems(1) fa by (auto simp: image_iff)
    then have "sum_list (map (\<lambda>g. count_list (references h this nodes ws g) (?A, Some B)) files) = 0"
      by (simp add: count_references_other)
    then have "count_list (concat (map (references h this nodes ws) files)) (?A, Some B) = 0"
      by (simp add: count_list_concat comp_def)
    then show ?thesis using fa by (simp add: count_list_append count_references_self)
  qed
qed

lemma proj_transfer:
  assumes "map proj xs = map proj ys"
  shows "length (filter (\<lambda>e. P (proj e)) xs) = length (filter (\<lambda>e. P (proj e)) ys)"
    and "(\<forall>e\<in>set xs. Q (proj e)) \<longleftrightarrow> (\<forall>e\<in>set ys. Q (proj e))"
proof -
  have L: "length (filter (\<lambda>e. P (proj e)) zs) = length (filter P (map proj zs))" for zs
    by (induction zs) simp_all
  show "length (filter (\<lambda>e. P (proj e)) xs) = length (filter (\<lambda>e. P (proj e)) ys)"
    by (simp only: L assms)
  have B: "(\<forall>e\<in>set zs. Q (proj e)) \<longleftrightarrow> (\<forall>p\<in>set (map proj zs). Q p)" for zs
    by simp
  show "(\<forall>e\<in>set xs. Q (proj e)) \<longleftrightarrow> (\<forall>e\<in>set ys. Q (proj e))"
    by (simp only: B assms)
qed

text \<open>
  Where the identifiers of the files are pairwise distinct, not empty and free of
  \<^verbatim>\<open>->\<close>, the graph has, for two different files a and b, one edge from a to b
  exactly when a reference of a resolved to b; the count of that edge is the number of
  those references and its value the count capped at five; and no edge joins a node to
  itself.
\<close>

theorem edges_aggregate_references:
  assumes ids: "distinct (map (getNodeId \<circ> file_relativePath) files)"
    and wf: "\<forall>f\<in>set files. getNodeId (file_relativePath f) \<noteq> []
                \<and> \<not> containsArrow (getNodeId (file_relativePath f))"
    and a: "a \<in> set files" and b: "b \<in> set files" and ab: "a \<noteq> b"
    and g: "g = snd (buildGraph h this0 files workspacePath)"
    and loaded: "this = fst (buildGraph h this0 files workspacePath)"
    and refs: "refs = length (filter (\<lambda>d. findMatchingNode (dep_path d) (map makeNode files) workspacePath
                                        = Some (getNodeId (file_relativePath b)))
                        (extractDependencies h this a workspacePath))"
  shows "length (filter (\<lambda>e. edge_from e = getNodeId (file_relativePath a)
                            \<and> edge_to e = getNodeId (file_relativePath b)) (gd_edges g))
           = (if refs = 0 then 0 else 1)
       \<and> (\<forall>e\<in>set (gd_edges g). edge_from e = getNodeId (file_relativePath a)
                            \<and> edge_to e = getNodeId (file_relativePath b)
             \<longrightarrow> edge_count e = refs \<and> edge_value e = min refs 5)
       \<and> (\<forall>e\<in>set (gd_edges g). edge_from e \<noteq> edge_to e)"
proof -
  let ?A = "getNodeId (file_relativePath a)" and ?B = "getNodeId (file_relativePath b)"
  let ?nodes = "map makeNode files"
  let ?tr = "concat (map (references h this ?nodes workspacePath) files)"
  let ?es = "createEdges h this ?nodes workspacePath files"
  let ?proj = "\<lambda>e. (edge_from e, edge_to e, edge_count e, edge_value e)"
  have this': "this = loadTsConfigPaths h (this0\<lparr>dg_workspacePath := workspacePath\<rparr>) workspacePath"
    unfolding loaded by (simp add: buildGraph_def Let_def)
  have pr: "map ?proj (gd_edges g) = map ?proj ?es"
    unfolding g this' by (rule buildGraph_edges_map) simp
  obtain m where inv: "edges_inv ?tr ?es m"
    using createEdges_inv[of files h this ?nodes workspacePath] wf by blast
  have src: "\<forall>p\<in>set ?tr. \<not> containsArrow (fst p)"
    using wf by (auto simp: references_def)
  have "?A \<noteq> ?B"
    using ids a b ab by (auto simp: distinct_map inj_on_def)
  then have eff: "effective ?A ?B"
    using wf b by (auto simp: effective_def)
  have cnt: "count_list ?tr (?A, Some ?B) = refs"
    unfolding refs by (rule count_references[OF ids a])
  note P = edges_inv_pair[OF inv src eff, unfolded cnt]
  have 1: "length (filter (\<lambda>e. edge_from e = ?A \<and> edge_to e = ?B) (gd_edges g))
      = length (filter (\<lambda>e. edge_from e = ?A \<and> edge_to e = ?B) ?es)"
    using proj_transfer(1)[OF pr, of "\<lambda>p. fst p = ?A \<and> fst (snd p) = ?B"] by simp
  have 2: "(\<forall>e\<in>set (gd_edges g). edge_from e = ?A \<and> edge_to e = ?B
             \<longrightarrow> edge_count e = refs \<and> edge_value e = min refs 5)
      \<longleftrightarrow> (\<forall>e\<in>set ?es. edge_from e = ?A \<and> edge_to e = ?B
             \<longrightarrow> edge_count e = refs \<and> edge_value e = min refs 5)"
    using proj_transfer(2)[OF pr, of "\<lambda>p. fst p = ?A \<and> fst (snd p) = ?B
          \<longrightarrow> fst (snd (snd p)) = refs \<and> snd (snd (snd p)) = min refs 5"] by simp
  have 3: "(\<forall>e\<in>set (gd_edges g). edge_from e \<noteq> edge_to e) \<longleftrightarrow> (\<forall>e\<in>set ?es. edge_from e \<noteq> edge_to e)"
    using proj_transfer(2)[OF pr, of "\<lambda>p. fst p \<noteq> fst (snd p)"] by simp
  show ?thesis
    unfolding 1 2 3 using P by blast
qed

lemma no_gt_no_arrow: "CHR ''>'' \<notin> set s \<Longrightarrow> \<not> containsArrow s"
  by (auto simp: containsArrow_def)

lemma edges_aggregate_references_example:
  "length (filter (\<lambda>e. edge_from e = ''a.py'' \<and> edge_to e = ''b.py'') (gd_edges (graphOf chord))) = 1
   \<and> list_all (\<lambda>e. edge_count e = 1 \<and> edge_value e = 1)
        (filter (\<lambda>e. edge_from e = ''a.py'' \<and> edge_to e = ''b.py'') (gd_edges (graphOf chord)))
   \<and> list_all (\<lambda>e. edge_from e \<noteq> edge_to e) (gd_edges (graphOf chord))"
proof -
  let ?files = "scanned chord"
  let ?h = "example_host chord"
  have ids: "distinct (map (getNodeId \<circ> file_relativePath) ?files)"
    by code_simp
  have "\<forall>f\<in>set ?files. getNodeId (file_relativePath f) \<noteq> [] \<and> CHR ''>'' \<notin> set (getNodeId (file_relativePath f))"
    by code_simp
  then have wf: "\<forall>f\<in>set ?files. getNodeId (file_relativePath f) \<noteq> []
                \<and> \<not> containsArrow (getNodeId (file_relativePath f))"
    using no_gt_no_arrow by blast
  have a: "?files ! 0 \<in> set ?files" and b: "?files ! 1 \<in> set ?files" and ab: "?files ! 0 \<noteq> ?files ! 1"
    by code_simp+
  have A: "getNodeId (file_relativePath (?files ! 0)) = ''a.py''"
    and B: "getNodeId (file_relativePath (?files ! 1)) = ''b.py''"
    by code_simp+
  have refs: "length (filter (\<lambda>d. findMatchingNode (dep_path d) (map makeNode ?files) ''/ws''
                                        = Some ''b.py'')
                        (extractDependencies ?h (fst (buildGraph ?h new_DependencyGraph ?files ''/ws'')) (?files ! 0) ''/ws'')) = 1"
    by code_simp
  have g: "graphOf chord = snd (buildGraph ?h new_DependencyGraph ?files ''/ws'')"
    by (simp add: graphOf_def)
  from edges_aggregate_references[OF ids wf a b ab g refl refl, unfolded A B, unfolded refs]
  show ?thesis
    by (simp add: list_all_iff)
qed

subsection \<open>Edge aggregation on file names that contain an arrow\<close>

text \<open>
  Claim C1. For every pair of distinct nodes A and B there is exactly one edge from A to B
  if and only if some reference in A's file resolved to B, with the number of those
  references as its count and the count capped at five as its value; no edge joins a node
  to itself.

  The edge map is keyed by the text \<^verbatim>\<open>sourceId->targetId\<close>, and two different
  pairs can spell the same key. In the project \<open>arrows\<close> each of \<^verbatim>\<open>x.ts\<close> and
  \<^verbatim>\<open>x.ts->y.ts\<close> holds one reference, to \<^verbatim>\<open>y.ts->z.ts\<close> and to
  \<^verbatim>\<open>z.ts\<close>; both pairs have the key \<^verbatim>\<open>x.ts->y.ts->z.ts\<close>. The graph has
  a single edge, from \<^verbatim>\<open>x.ts\<close> to \<^verbatim>\<open>y.ts->z.ts\<close> with count 2, and no
  edge from \<^verbatim>\<open>x.ts->y.ts\<close> to \<^verbatim>\<open>z.ts\<close>.
\<close>

theorem edge_key_collision:
  "map node_id (gd_nodes (graphOf arrows)) = [''x.ts'', ''x.ts->y.ts'', ''y.ts->z.ts'', ''z.ts'']
   \<and> map (\<lambda>f. (file_relativePath f,
          map dep_path (extractDependencies (example_host arrows) new_DependencyGraph f ''/ws'')))
        (scanned arrows)
       = [(''x.ts'', [''y.ts->z.ts'']), (''x.ts->y.ts'', [''z.ts'']), (''y.ts->z.ts'', []), (''z.ts'', [])]
   \<and> map (\<lambda>e. (edge_from e, edge_to e, edge_count e, edge_value e)) (gd_edges (graphOf arrows))
       = [(''x.ts'', ''y.ts->z.ts'', 2, 2)]"
  by code_simp

subsection \<open>The recorded cycles\<close>

text \<open>
  Claim C2. When the search meets a node that is on the current path, the cycle it records
  is the slice of the path from that node on, in path order, with the node appended: a
  directed walk along edges.

  The source computes the deduplication key with \<^verbatim>\<open>cycle.sort().join('->')\<close>,
  and \<^verbatim>\<open>sort\<close> reorders \<open>cycle\<close> itself before it is pushed. In the project
  \<open>triangle\<close> the search from \<^verbatim>\<open>a.py\<close> walks a, c, b and meets a again; the
  path slice is a, c, b, a, and the record is the sorted a, a, b, c, which is not a walk
  (there is no edge from a to a or from a to b). The marking loop, which reads
  consecutive elements of the record as edges, then marks none of the three edges.
\<close>

theorem recorded_cycle_is_sorted:
  "map (\<lambda>e. (edge_from e, edge_to e, edge_isCircular e)) (gd_edges (graphOf triangle))
       = [(''a.py'', ''c.py'', None), (''b.py'', ''a.py'', None), (''c.py'', ''b.py'', None)]
   \<and> gd_circularDependencies (graphOf triangle) = [[''a.py'', ''a.py'', ''b.py'', ''c.py'']]"
  by code_simp

text \<open>
  Claim C3. Every node that lies on some directed cycle of the edges ends with
  \<^verbatim>\<open>isCircular = true\<close>.

  The search returns at once from a node it has visited before. In the project
  \<open>chord\<close> the module \<^verbatim>\<open>c.py\<close> lies on the cycle a, c, b, a; the search
  from a first walks a, b and records that cycle, then walks a, c and stops at b, which
  is visited and no longer on the stack. The cycle through c is never recorded, and c
  stays unmarked.
\<close>

theorem node_on_cycle_not_flagged:
  "map (\<lambda>e. (edge_from e, edge_to e)) (gd_edges (graphOf chord))
       = [(''a.py'', ''b.py''), (''a.py'', ''c.py''), (''b.py'', ''a.py''), (''c.py'', ''b.py'')]
   \<and> gd_circularDependencies (graphOf chord) = [[''a.py'', ''a.py'', ''b.py'']]
   \<and> map (\<lambda>n. (node_id n, node_isCircular n)) (gd_nodes (graphOf chord))
       = [(''a.py'', Some True), (''b.py'', Some True), (''c.py'', None)]"
  by code_simp

subsection \<open>Matching a resolved path to a node\<close>

lemma find_None_iff': "find P xs = None \<longleftrightarrow> (\<forall>x\<in>set xs. \<not> P x)"
  by (induction xs) auto

lemma find_first:
  assumes "i < length xs" and "P (xs ! i)" and "\<forall>j<i. \<not> P (xs ! j)"
  shows "find P xs = Some (xs ! i)"
  using assms by (auto simp: find_Some_iff)

text \<open>
  Claim C4, as amended. Matching never invents a node: the answer is the identifier of the
  first node of the list whose path is the resolved path; when no node has that path, of
  the first node whose path has the same base name; and nothing when there is no such node
  either. A reference that is matched to nothing leaves the edges as they are. A reference
  that is matched to a node leaves them as they are when the identifier found is empty or
  is that of the referencing file; otherwise, when no edge is registered under the key of
  the pair, an edge from the referencing file to that node, with count 1, is appended and
  registered, and when one is registered its count goes up by one. So a reference to a file
  that was not collected is as good as unresolved only when no collected file has its base
  name.
\<close>

theorem findMatchingNode_never_invents:
  "((\<forall>n\<in>set nodes. node_path n \<noteq> dep_path depInfo
        \<and> path_basename (node_path n) \<noteq> path_basename (dep_path depInfo))
    \<longrightarrow> findMatchingNode (dep_path depInfo) nodes workspacePath = None
        \<and> addDependency nodes workspacePath file sourceId depInfo st = st)
   \<and> (\<forall>t. findMatchingNode (dep_path depInfo) nodes workspacePath = Some t
        \<longrightarrow> (\<exists>n\<in>set nodes. node_id n = t
               \<and> (node_path n = dep_path depInfo
                   \<or> (\<forall>m\<in>set nodes. node_path m \<noteq> dep_path depInfo)
                      \<and> path_basename (node_path n) = path_basename (dep_path depInfo))))
   \<and> (\<forall>i<length nodes.
         node_path (nodes ! i) = dep_path depInfo
         \<and> (\<forall>j<i. node_path (nodes ! j) \<noteq> dep_path depInfo)
        \<longrightarrow> findMatchingNode (dep_path depInfo) nodes workspacePath = Some (node_id (nodes ! i)))
   \<and> (\<forall>i<length nodes.
         (\<forall>n\<in>set nodes. node_path n \<noteq> dep_path depInfo)
         \<and> path_basename (node_path (nodes ! i)) = path_basename (dep_path depInfo)
         \<and> (\<forall>j<i. path_basename (node_path (nodes ! j)) \<noteq> path_basename (dep_path depInfo))
        \<longrightarrow> findMatchingNode (dep_path depInfo) nodes workspacePath = Some (node_id (nodes ! i)))
   \<and> (\<forall>t. findMatchingNode (dep_path depInfo) nodes workspacePath = Some t
        \<longrightarrow> addDependency nodes workspacePath file sourceId depInfo (edges, edgeMap)
            = (if t = [] \<or> t = sourceId then (edges, edgeMap)
               else case edgeMap (edgeKey sourceId t) of
                      None \<Rightarrow>
                        (edges @ [\<lparr>edge_from = sourceId, edge_to = t, edge_value = 1, edge_count = 1,
                                   edge_type = dep_type depInfo,
                                   edge_title = path_basename (file_relativePath file) @ '' '' @ rightArrow
                                      @ '' '' @ path_basename (dep_path depInfo) @ '' (''
                                      @ dependencyTypeName (dep_type depInfo) @ '')'',
                                   edge_isCircular = None\<rparr>],
                         edgeMap(edgeKey sourceId t \<mapsto> length edges))
                    | Some k \<Rightarrow>
                        (edges[k := (edges ! k)
                            \<lparr>edge_count := (if edge_count (edges ! k) = 0 then 1 else edge_count (edges ! k)) + 1,
                             edge_value := min ((if edge_count (edges ! k) = 0 then 1
                                                 else edge_count (edges ! k)) + 1) 5\<rparr>],
                         edgeMap)))"
proof (intro conjI impI allI)
  assume a: "\<forall>n\<in>set nodes. node_path n \<noteq> dep_path depInfo
        \<and> path_basename (node_path n) \<noteq> path_basename (dep_path depInfo)"
  then have "find (\<lambda>n. node_path n = dep_path depInfo) nodes = None"
    and "find (\<lambda>n. path_basename (node_path n) = path_basename (dep_path depInfo)) nodes = None"
    by (simp_all add: find_None_iff')
  then show none: "findMatchingNode (dep_path depInfo) nodes workspacePath = None"
    by (simp add: findMatchingNode_def)
  then show "addDependency nodes workspacePath file sourceId depInfo st = st"
    by (cases st) (simp add: addDependency_def)
next
  fix t
  assume s: "findMatchingNode (dep_path depInfo) nodes workspacePath = Some t"
  show "\<exists>n\<in>set nodes. node_id n = t
               \<and> (node_path n = dep_path depInfo
                   \<or> (\<forall>m\<in>set nodes. node_path m \<noteq> dep_path depInfo)
                      \<and> path_basename (node_path n) = path_basename (dep_path depInfo))"
  proof (cases "find (\<lambda>n. node_path n = dep_path depInfo) nodes")
    case (Some n)
    then have "n \<in> set nodes" "node_path n = dep_path depInfo"
      by (auto simp: find_Some_iff)
    moreover have "node_id n = t"
      using s Some by (simp add: findMatchingNode_def)
    ultimately show ?thesis by blast
  next
    case None
    then have no: "\<forall>m\<in>set nodes. node_path m \<noteq> dep_path depInfo"
      by (simp add: find_None_iff')
    from s None obtain m where
      m: "find (\<lambda>n. path_basename (node_path n) = path_basename (dep_path depInfo)) nodes = Some m"
        "node_id m = t"
      by (auto simp: findMatchingNode_def Let_def split: option.splits)
    then have "m \<in> set nodes" "path_basename (node_path m) = path_basename (dep_path depInfo)"
      by (auto simp: find_Some_iff)
    then show ?thesis using no m(2) by blast
  qed
next
  fix i
  assume "i < length nodes"
    and "node_path (nodes ! i) = dep_path depInfo
         \<and> (\<forall>j<i. node_path (nodes ! j) \<noteq> dep_path depInfo)"
  then have "find (\<lambda>n. node_path n = dep_path depInfo) nodes = Some (nodes ! i)"
    by (intro find_first) simp_all
  then show "findMatchingNode (dep_path depInfo) nodes workspacePath = Some (node_id (nodes ! i))"
    by (simp add: findMatchingNode_def)
next
  fix i
  assume i: "i < length nodes"
    and a: "(\<forall>n\<in>set nodes. node_path n \<noteq> dep_path depInfo)
         \<and> path_basename (node_path (nodes ! i)) = path_basename (dep_path depInfo)
         \<and> (\<forall>j<i. path_basename (node_path (nodes ! j)) \<noteq> path_basename (dep_path depInfo))"
  from a have "find (\<lambda>n. node_path n = dep_path depInfo) nodes = None"
    by (simp add: find_None_iff')
  moreover have "find (\<lambda>n. path_basename (node_path n) = path_basename (dep_path depInfo)) nodes
      = Some (nodes ! i)"
    using i a by (intro find_first) simp_all
  ultimately show "findMatchingNode (dep_path depInfo) nodes workspacePath = Some (node_id (nodes ! i))"
    by (simp add: findMatchingNode_def)
next
  fix t
  assume s: "findMatchingNode (dep_path depInfo) nodes workspacePath = Some t"
  have c: "min (if (if edge_count e = 0 then 1 else edge_count e) + 1 = 0 then 1
                else (if edge_count e = 0 then 1 else edge_count e) + 1) 5
         = min ((if edge_count e = 0 then 1 else edge_count e) + 1) (5::nat)" for e :: GraphEdge
    by simp
  show "addDependency nodes workspacePath file sourceId depInfo (edges, edgeMap)
            = (if t = [] \<or> t = sourceId then (edges, edgeMap)
               else case edgeMap (edgeKey sourceId t) of
                      None \<Rightarrow>
                        (edges @ [\<lparr>edge_from = sourceId, edge_to = t, edge_value = 1, edge_count = 1,
                                   edge_type = dep_type depInfo,
                                   edge_title = path_basename (file_relativePath file) @ '' '' @ rightArrow
                                      @ '' '' @ path_basename (dep_path depInfo) @ '' (''
                                      @ dependencyTypeName (dep_type depInfo) @ '')'',
                                   edge_isCircular = None\<rparr>],
                         edgeMap(edgeKey sourceId t \<mapsto> length edges))
                    | Some k \<Rightarrow>
                        (edges[k := (edges ! k)
                            \<lparr>edge_count := (if edge_count (edges ! k) = 0 then 1 else edge_count (edges ! k)) + 1,
                             edge_value := min ((if edge_count (edges ! k) = 0 then 1
                                                 else edge_count (edges ! k)) + 1) 5\<rparr>],
                         edgeMap))"
    by (simp add: addDependency_def s Let_def c split: option.splits)
qed

theorem findMatchingNode_never_invents_witness:
  "findMatchingNode ''lib/missing.py'' shadow_nodes ''/ws'' = None
   \<and> addDependency shadow_nodes ''/ws'' (hd (scanned shadow)) ''main.py'' missing_dep ([], Map.empty)
       = ([], Map.empty)
   \<and> map node_path twins_nodes = [''lib/util.py'', ''main.py'', ''src/util.py'']
   \<and> findMatchingNode ''src/util.py'' twins_nodes ''/ws'' = Some ''src/util.py''
   \<and> findMatchingNode ''build/util.py'' twins_nodes ''/ws'' = Some ''lib/util.py''
   \<and> map (\<lambda>e. (edge_from e, edge_to e, edge_count e))
         (fst (addDependency twins_nodes ''/ws'' (scanned twins ! 1) ''main.py'' shadowed_dep ([], Map.empty)))
       = [(''main.py'', ''lib/util.py'', 1)]
   \<and> findMatchingNode ''build/main.py'' twins_nodes ''/ws'' = Some ''main.py''
   \<and> addDependency twins_nodes ''/ws'' (scanned twins ! 1) ''main.py'' own_dep ([], Map.empty)
       = ([], Map.empty)"
proof -
  have d: "dep_path missing_dep = ''lib/missing.py''" "dep_path shadowed_dep = ''build/util.py''"
    "dep_path own_dep = ''build/main.py''" "dep_path exact_dep = ''src/util.py''"
    by code_simp+
  have paths: "map node_path twins_nodes = [''lib/util.py'', ''main.py'', ''src/util.py'']"
    by code_simp
  have ids: "map node_id twins_nodes = [''lib/util.py'', ''main.py'', ''src/util.py'']"
    by code_simp
  have len: "length twins_nodes = 3"
    using paths by (metis length_map length_Cons list.size(3) numeral_3_eq_3)
  have nth: "node_path (twins_nodes ! 0) = ''lib/util.py''" "node_path (twins_nodes ! 1) = ''main.py''"
    "node_path (twins_nodes ! 2) = ''src/util.py''"
    "node_id (twins_nodes ! 0) = ''lib/util.py''" "node_id (twins_nodes ! 1) = ''main.py''"
    "node_id (twins_nodes ! 2) = ''src/util.py''"
    by code_simp+
  have base: "path_basename ''lib/util.py'' = ''util.py''" "path_basename ''src/util.py'' = ''util.py''"
    "path_basename ''build/util.py'' = ''util.py''" "path_basename ''main.py'' = ''main.py''"
    "path_basename ''build/main.py'' = ''main.py''"
    by code_simp+
  have uncollected: "\<forall>n\<in>set twins_nodes. node_path n \<noteq> ''build/util.py''"
    "\<forall>n\<in>set twins_nodes. node_path n \<noteq> ''build/main.py''"
    by code_simp+
  have missing: "\<forall>n\<in>set shadow_nodes. node_path n \<noteq> dep_path missing_dep
        \<and> path_basename (node_path n) \<noteq> path_basename (dep_path missing_dep)"
    by code_simp
  note m = findMatchingNode_never_invents[of shadow_nodes missing_dep "''/ws''" "hd (scanned shadow)"
      "''main.py''" "([], Map.empty)"]
  have 1: "findMatchingNode ''lib/missing.py'' shadow_nodes ''/ws'' = None
      \<and> addDependency shadow_nodes ''/ws'' (hd (scanned shadow)) ''main.py'' missing_dep ([], Map.empty)
          = ([], Map.empty)"
    using m missing unfolding d by blast
  note e = findMatchingNode_never_invents[of twins_nodes exact_dep "''/ws''",
      THEN conjunct2, THEN conjunct2, THEN conjunct1, rule_format, of 2]
  have "\<forall>j<2. node_path (twins_nodes ! j) \<noteq> ''src/util.py''"
    using nth by (auto simp: less_Suc_eq numeral_2_eq_2)
  then have 2: "findMatchingNode ''src/util.py'' twins_nodes ''/ws'' = Some ''src/util.py''"
    using e len nth unfolding d by simp
  note t = findMatchingNode_never_invents[of twins_nodes shadowed_dep "''/ws''" "scanned twins ! 1"
      "''main.py''" _ "[]" Map.empty]
  have 3: "findMatchingNode ''build/util.py'' twins_nodes ''/ws'' = Some ''lib/util.py''"
    using t[THEN conjunct2, THEN conjunct2, THEN conjunct2, THEN conjunct1, rule_format, of 0]
      len nth base uncollected(1) unfolding d by simp
  have "addDependency twins_nodes ''/ws'' (scanned twins ! 1) ''main.py'' shadowed_dep ([], Map.empty)
      = ([\<lparr>edge_from = ''main.py'', edge_to = ''lib/util.py'', edge_value = 1, edge_count = 1,
            edge_type = dep_type shadowed_dep,
            edge_title = path_basename (file_relativePath (scanned twins ! 1)) @ '' '' @ rightArrow
               @ '' '' @ path_basename ''build/util.py'' @ '' (''
               @ dependencyTypeName (dep_type shadowed_dep) @ '')'',
            edge_isCircular = None\<rparr>],
         Map.empty(edgeKey ''main.py'' ''lib/util.py'' \<mapsto> length ([]::GraphEdge list)))"
    using t[THEN conjunct2, THEN conjunct2, THEN conjunct2, THEN conjunct2, rule_format, of "''lib/util.py''"]
      3 unfolding d by simp
  then have 4: "map (\<lambda>e. (edge_from e, edge_to e, edge_count e))
         (fst (addDependency twins_nodes ''/ws'' (scanned twins ! 1) ''main.py'' shadowed_dep ([], Map.empty)))
       = [(''main.py'', ''lib/util.py'', 1)]"
    by simp
  note o = findMatchingNode_never_invents[of twins_nodes own_dep "''/ws''" "scanned twins ! 1"
      "''main.py''" _ "[]" Map.empty]
  have "\<forall>j<1. path_basename (node_path (twins_nodes ! j)) \<noteq> path_basename ''build/main.py''"
    using nth base by simp
  then have 5: "findMatchingNode ''build/main.py'' twins_nodes ''/ws'' = Some ''main.py''"
    using o[THEN conjunct2, THEN conjunct2, THEN conjunct2, THEN conjunct1, rule_format, of 1]
      len nth base uncollected(2) unfolding d by simp
  have 6: "addDependency twins_nodes ''/ws'' (scanned twins ! 1) ''main.py'' own_dep ([], Map.empty)
       = ([], Map.empty)"
    using o[THEN conjunct2, THEN conjunct2, THEN conjunct2, THEN conjunct2, rule_format, of "''main.py''"]
      5 unfolding d by simp
  show ?thesis
    using 1 paths 2 3 4 5 6 by blast
qed

text \<open>
  Claim C4 as stated fails: in the project \<open>shadow\<close> the reference of
  \<^verbatim>\<open>main.py\<close> resolves to \<^verbatim>\<open>build/util.py\<close>, a file that was not
  collected, and an edge to \<^verbatim>\<open>src/util.py\<close> is created all the same.
\<close>

theorem unscanned_target_gets_edge:
  "map file_relativePath (scanned shadow) = [''main.py'', ''src/util.py'']
   \<and> map dep_path (extractDependencies (example_host shadow) new_DependencyGraph (hd (scanned shadow)) ''/ws'')
       = [''build/util.py'']
   \<and> map (\<lambda>e. (edge_from e, edge_to e)) (gd_edges (graphOf shadow)) = [(''main.py'', ''src/util.py'')]"
  by code_simp

subsection \<open>Go imports\<close>










lemma without_fields [simp]:
  "h_fileExists (withoutModuleRoot aliases h) = h_fileExists h"
  "h_cwd (withoutModuleRoot aliases h) = h_cwd h"
  "h_tsconfig (withoutModuleRoot aliases h) = h_tsconfig h"
  "h_tree (withoutModuleRoot aliases h) = h_tree h"
  by (simp_all add: withoutModuleRoot_def)















subsection \<open>Dependency counts\<close>

lemma update_first_distinct_nth:
  assumes "distinct (map k xs)" and "i < length xs"
  shows "update_first (\<lambda>x. k x = a) f xs ! i = (if k (xs ! i) = a then f (xs ! i) else xs ! i)"
  using assms
proof (induction xs arbitrary: i)
  case Nil
  then show ?case by simp
next
  case (Cons x xs)
  show ?case
  proof (cases i)
    case 0
    then show ?thesis by simp
  next
    case (Suc j)
    then have j: "j < length xs" using Cons.prems(2) by simp
    show ?thesis
    proof (cases "k x = a")
      case True
      then have "k (xs ! j) \<noteq> a"
        using Cons.prems(1) j by (metis distinct.simps(2) list.simps(9) nth_map nth_mem length_map)
      then show ?thesis using True Suc by simp
    next
      case False
      then show ?thesis using Suc Cons.IH[OF _ j] Cons.prems(1) by simp
    qed
  qed
qed

lemma countEdge_nth:
  assumes "distinct (map node_id nodes)" and "i < length nodes"
  shows "node_dependencyCount (countEdge e nodes ! i)
           = node_dependencyCount (nodes ! i) + (if node_id (nodes ! i) = edge_from e then 1 else 0)"
    and "node_dependentCount (countEdge e nodes ! i)
           = node_dependentCount (nodes ! i) + (if node_id (nodes ! i) = edge_to e then 1 else 0)"
proof -
  let ?inner = "update_first (\<lambda>n. node_id n = edge_from e)
          (\<lambda>n. n\<lparr>node_dependencyCount := node_dependencyCount n + 1\<rparr>) nodes"
  have ids: "map node_id ?inner = map node_id nodes"
    by (simp add: update_first_map_eq)
  have d: "distinct (map node_id ?inner)" using assms(1) ids by simp
  have l: "i < length ?inner" using assms(2) by simp
  have inner: "?inner ! i = (if node_id (nodes ! i) = edge_from e
                 then (nodes ! i)\<lparr>node_dependencyCount := node_dependencyCount (nodes ! i) + 1\<rparr>
                 else nodes ! i)"
    by (rule update_first_distinct_nth[OF assms])
  have outer: "countEdge e nodes ! i = (if node_id (?inner ! i) = edge_to e
                 then (?inner ! i)\<lparr>node_dependentCount := node_dependentCount (?inner ! i) + 1\<rparr>
                 else ?inner ! i)"
    unfolding countEdge_def by (rule update_first_distinct_nth[OF d l])
  show "node_dependencyCount (countEdge e nodes ! i)
           = node_dependencyCount (nodes ! i) + (if node_id (nodes ! i) = edge_from e then 1 else 0)"
    unfolding outer inner by simp
  have "node_id (?inner ! i) = node_id (nodes ! i)"
    unfolding inner by simp
  then show "node_dependentCount (countEdge e nodes ! i)
           = node_dependentCount (nodes ! i) + (if node_id (nodes ! i) = edge_to e then 1 else 0)"
    unfolding outer unfolding inner by simp
qed

lemma countEdge_ids': "map node_id (countEdge e nodes) = map node_id nodes"
  by (simp add: countEdge_def update_first_map_eq)

lemma length_countEdge: "length (countEdge e nodes) = length nodes"
  using countEdge_ids'[of e nodes] by (metis length_map)

lemma updateCounts_nth:
  assumes "distinct (map node_id nodes)" and "i < length nodes"
  shows "node_dependencyCount (updateCounts es nodes ! i)
           = node_dependencyCount (nodes ! i) + length (filter (\<lambda>e. edge_from e = node_id (nodes ! i)) es)
       \<and> node_dependentCount (updateCounts es nodes ! i)
           = node_dependentCount (nodes ! i) + length (filter (\<lambda>e. edge_to e = node_id (nodes ! i)) es)"
  using assms unfolding updateCounts_def
proof (induction es arbitrary: nodes)
  case Nil
  then show ?case by simp
next
  case (Cons e es)
  have d: "distinct (map node_id (countEdge e nodes))"
    using Cons.prems(1) by (simp add: countEdge_ids')
  have l: "i < length (countEdge e nodes)"
    using Cons.prems(2) by (simp add: length_countEdge)
  have id: "node_id (countEdge e nodes ! i) = node_id (nodes ! i)"
    using countEdge_ids'[of e nodes] Cons.prems(2) l by (metis nth_map)
  show ?case
    using Cons.IH[OF d l] countEdge_nth[OF Cons.prems, of e] id by auto
qed

lemma sum_update_first:
  assumes "\<And>x. c (f x) = c x + (1::nat)"
  shows "sum_list (map c (update_first P f xs)) = sum_list (map c xs) + (if \<exists>x\<in>set xs. P x then 1 else 0)"
  using assms by (induction xs) auto

lemma sum_countEdge:
  "sum_list (map node_dependencyCount (countEdge e nodes))
     = sum_list (map node_dependencyCount nodes) + (if edge_from e \<in> node_id ` set nodes then 1 else 0)"
  "sum_list (map node_dependentCount (countEdge e nodes))
     = sum_list (map node_dependentCount nodes) + (if edge_to e \<in> node_id ` set nodes then 1 else 0)"
proof -
  let ?inner = "update_first (\<lambda>n. node_id n = edge_from e)
          (\<lambda>n. n\<lparr>node_dependencyCount := node_dependencyCount n + 1\<rparr>) nodes"
  have "map node_id ?inner = map node_id nodes"
    by (simp add: update_first_map_eq)
  then have ids: "node_id ` set ?inner = node_id ` set nodes"
    by (metis set_map)
  have iff1: "(\<exists>x\<in>set nodes. node_id x = edge_from e) \<longleftrightarrow> edge_from e \<in> node_id ` set nodes"
    by (force simp: image_iff)
  have iff2: "(\<exists>x\<in>set ?inner. node_id x = edge_to e) \<longleftrightarrow> edge_to e \<in> node_id ` set nodes"
    unfolding ids[symmetric] by (force simp: image_iff)
  have "sum_list (map node_dependencyCount (countEdge e nodes)) = sum_list (map node_dependencyCount ?inner)"
    unfolding countEdge_def by (simp add: update_first_map_eq)
  also have "\<dots> = sum_list (map node_dependencyCount nodes)
       + (if \<exists>x\<in>set nodes. node_id x = edge_from e then 1 else 0)"
    by (rule sum_update_first) simp
  finally show "sum_list (map node_dependencyCount (countEdge e nodes))
     = sum_list (map node_dependencyCount nodes) + (if edge_from e \<in> node_id ` set nodes then 1 else 0)"
    unfolding iff1 .
  have "sum_list (map node_dependentCount (countEdge e nodes))
      = sum_list (map node_dependentCount ?inner) + (if \<exists>x\<in>set ?inner. node_id x = edge_to e then 1 else 0)"
    unfolding countEdge_def by (rule sum_update_first) simp
  moreover have "map node_dependentCount ?inner = map node_dependentCount nodes"
    by (simp add: update_first_map_eq)
  ultimately show "sum_list (map node_dependentCount (countEdge e nodes))
     = sum_list (map node_dependentCount nodes) + (if edge_to e \<in> node_id ` set nodes then 1 else 0)"
    unfolding iff2 by simp
qed

lemma sum_updateCounts:
  assumes "endpoints_in (node_id ` set nodes) (node_id ` set nodes) es"
  shows "sum_list (map node_dependencyCount (updateCounts es nodes))
           = sum_list (map node_dependencyCount nodes) + length es
       \<and> sum_list (map node_dependentCount (updateCounts es nodes))
           = sum_list (map node_dependentCount nodes) + length es"
  using assms unfolding updateCounts_def
proof (induction es arbitrary: nodes)
  case Nil
  then show ?case by simp
next
  case (Cons e es)
  have ids: "node_id ` set (countEdge e nodes) = node_id ` set nodes"
    by (metis countEdge_ids' set_map)
  have "endpoints_in (node_id ` set (countEdge e nodes)) (node_id ` set (countEdge e nodes)) es"
    using Cons.prems unfolding ids by (simp add: endpoints_in_def)
  moreover have "edge_from e \<in> node_id ` set nodes" "edge_to e \<in> node_id ` set nodes"
    using Cons.prems by (simp_all add: endpoints_in_def)
  ultimately show ?case
    using Cons.IH[of "countEdge e nodes"] by (simp add: sum_countEdge)
qed

lemma counts_of_makeNode:
  "sum_list (map node_dependencyCount (map makeNode files)) = 0"
  "sum_list (map node_dependentCount (map makeNode files)) = 0"
  by (induction files) (simp_all add: makeNode_def)

lemma filter_by_map: "length (filter (\<lambda>e. g e = x) es) = length (filter (\<lambda>y. y = x) (map g es))"
  by (induction es) simp_all

text \<open>
  In every graph the dependency counts add up to the number of edges, and so do the
  dependent counts. Where the identifiers of the files are pairwise distinct, each node's
  counts are the numbers of edges that leave it and that enter it.
\<close>

theorem counts_match_edges:
  "(distinct (map (getNodeId \<circ> file_relativePath) files)
      \<longrightarrow> (\<forall>n\<in>set (gd_nodes (snd (buildGraph h this0 files workspacePath))).
             node_dependencyCount n
               = length (filter (\<lambda>e. edge_from e = node_id n) (gd_edges (snd (buildGraph h this0 files workspacePath))))
           \<and> node_dependentCount n
               = length (filter (\<lambda>e. edge_to e = node_id n) (gd_edges (snd (buildGraph h this0 files workspacePath))))))
   \<and> sum_list (map node_dependencyCount (gd_nodes (snd (buildGraph h this0 files workspacePath))))
       = length (gd_edges (snd (buildGraph h this0 files workspacePath)))
   \<and> sum_list (map node_dependentCount (gd_nodes (snd (buildGraph h this0 files workspacePath))))
       = length (gd_edges (snd (buildGraph h this0 files workspacePath)))"
proof -
  let ?g = "snd (buildGraph h this0 files workspacePath)"
  let ?nodes0 = "map makeNode files"
  let ?es = "createEdges h (loadTsConfigPaths h (this0\<lparr>dg_workspacePath := workspacePath\<rparr>) workspacePath)
               ?nodes0 workspacePath files"
  let ?nodes1 = "updateCounts ?es ?nodes0"
  have out: "map node_dependencyCount (gd_nodes ?g) = map node_dependencyCount ?nodes1"
    by (rule buildGraph_nodes_map) simp
  have inc: "map node_dependentCount (gd_nodes ?g) = map node_dependentCount ?nodes1"
    by (rule buildGraph_nodes_map) simp
  have ids: "map node_id (gd_nodes ?g) = map node_id ?nodes1"
    by (rule buildGraph_nodes_map) simp
  have from_eq: "map edge_from (gd_edges ?g) = map edge_from ?es"
    by (rule buildGraph_edges_map) simp
  have to_eq: "map edge_to (gd_edges ?g) = map edge_to ?es"
    by (rule buildGraph_edges_map) simp
  have len: "length (gd_edges ?g) = length ?es"
    using from_eq by (metis length_map)
  have ep: "endpoints_in (node_id ` set ?nodes0) (node_id ` set ?nodes0) ?es"
    by (rule createEdges_endpoints)
  have sums: "sum_list (map node_dependencyCount ?nodes1) = length ?es"
    "sum_list (map node_dependentCount ?nodes1) = length ?es"
    using sum_updateCounts[OF ep] counts_of_makeNode[of files] by simp_all
  have per_node: "\<forall>n\<in>set (gd_nodes ?g).
             node_dependencyCount n = length (filter (\<lambda>e. edge_from e = node_id n) (gd_edges ?g))
           \<and> node_dependentCount n = length (filter (\<lambda>e. edge_to e = node_id n) (gd_edges ?g))"
    if d: "distinct (map (getNodeId \<circ> file_relativePath) files)"
  proof
    fix n
    assume "n \<in> set (gd_nodes ?g)"
    then obtain i where i: "i < length (gd_nodes ?g)" "gd_nodes ?g ! i = n"
      by (auto simp: in_set_conv_nth)
    have l: "length (gd_nodes ?g) = length ?nodes0"
      using ids by (metis length_map updateCounts_ids)
    have i0: "i < length ?nodes0" using i(1) l by simp
    have i1: "i < length ?nodes1" using i0 by (metis length_map updateCounts_ids)
    have d0: "distinct (map node_id ?nodes0)"
      using d by (simp add: comp_def)
    have nid: "node_id n = node_id (?nodes0 ! i)"
      using ids i i1 by (metis nth_map updateCounts_ids i0)
    have "node_dependencyCount n = node_dependencyCount (?nodes1 ! i)"
      using out i i1 by (metis nth_map)
    moreover have "node_dependentCount n = node_dependentCount (?nodes1 ! i)"
      using inc i i1 by (metis nth_map)
    moreover have "node_dependencyCount (?nodes0 ! i) = 0" "node_dependentCount (?nodes0 ! i) = 0"
      using i0 by (simp_all add: makeNode_def)
    ultimately have "node_dependencyCount n = length (filter (\<lambda>e. edge_from e = node_id n) ?es)"
      "node_dependentCount n = length (filter (\<lambda>e. edge_to e = node_id n) ?es)"
      using updateCounts_nth[OF d0 i0, of ?es] nid by simp_all
    then show "node_dependencyCount n = length (filter (\<lambda>e. edge_from e = node_id n) (gd_edges ?g))
           \<and> node_dependentCount n = length (filter (\<lambda>e. edge_to e = node_id n) (gd_edges ?g))"
      by (simp add: filter_by_map[of edge_from] filter_by_map[of edge_to] from_eq to_eq)
  qed
  show ?thesis
    using per_node sums by (simp add: out inc len)
qed

subsection \<open>Dependency counts when two files share an identifier\<close>

text \<open>
  Claim C5. Each node's \<^verbatim>\<open>dependencyCount\<close> is the number of edges that leave it
  and its \<^verbatim>\<open>dependentCount\<close> the number of edges that enter it.

  \<^verbatim>\<open>getNodeId\<close> turns backslashes into slashes, so in the project \<open>backslash\<close>
  the files \<^verbatim>\<open>a/b.py\<close> and \<^verbatim>\<open>a\b.py\<close> get the same identifier. The one
  edge comes from the import in \<^verbatim>\<open>a\b.py\<close>, but the count goes to the first node
  with that identifier, the node of \<^verbatim>\<open>a/b.py\<close>, whose file imports nothing.
\<close>

theorem counts_with_shared_identifier:
  "map (\<lambda>f. (file_relativePath f,
          map dep_path (extractDependencies (example_host backslash) new_DependencyGraph f ''/ws'')))
        (scanned backslash)
       = [(''a/b.py'', []), (''a'' @ [CHR 0x5C] @ ''b.py'', [''c.py'']), (''c.py'', [])]
   \<and> map (\<lambda>e. (edge_from e, edge_to e)) (gd_edges (graphOf backslash)) = [(''a/b.py'', ''c.py'')]
   \<and> map (\<lambda>n. (node_id n, node_path n, node_dependencyCount n)) (gd_nodes (graphOf backslash))
       = [(''a/b.py'', ''a/b.py'', 1), (''a/b.py'', ''a'' @ [CHR 0x5C] @ ''b.py'', 0),
          (''c.py'', ''c.py'', 0)]"
  by code_simp

section \<open>Scanning twice\<close>

lemma loadEntries_setAll: "loadEntries es m = setAll (aliasOps es) m"
proof (induction es arbitrary: m)
  case Nil
  then show ?case by (simp add: setAll_def)
next
  case (Cons e es)
  obtain key v where e: "e = (key, v)" by (cases e)
  show ?case
  proof (cases v)
    case NotArray
    then show ?thesis using Cons e by simp
  next
    case (Arr xs)
    show ?thesis
    proof (cases xs)
      case Nil
      then show ?thesis using Cons e Arr by simp
    next
      case (Cons x xs')
      then show ?thesis using Cons.IH e Arr by (cases x) (simp_all add: setAll_def)
    qed
  qed
qed

lemma map_of_map_set: "map_of (map_set m k v) x = (if x = k then Some v else map_of m x)"
  by (induction m) auto

lemma keys_map_set:
  "map fst (map_set m k v) = (if k \<in> fst ` set m then map fst m else map fst m @ [k])"
proof (induction m)
  case Nil
  then show ?case by simp
next
  case (Cons p m)
  then show ?case by (cases p) force
qed

lemma distinct_map_set: "distinct (map fst m) \<Longrightarrow> distinct (map fst (map_set m k v))"
  by (simp add: keys_map_set)

lemma distinct_setAll: "distinct (map fst m) \<Longrightarrow> distinct (map fst (setAll ops m))"
  unfolding setAll_def by (induction ops arbitrary: m) (simp_all add: distinct_map_set)

lemma map_of_setAll:
  "map_of (setAll ops m) x = (case map_of (rev ops) x of Some v \<Rightarrow> Some v | None \<Rightarrow> map_of m x)"
  unfolding setAll_def
proof (induction ops arbitrary: m)
  case Nil
  then show ?case by simp
next
  case (Cons kv ops)
  obtain k v where kv: "kv = (k, v)" by (cases kv)
  show ?case
    by (simp add: Cons.IH map_of_map_set kv map_add_def split: option.splits)
qed

lemma key_set_map_set: "fst ` set (map_set m k v) = insert k (fst ` set m)"
proof -
  have "set (map fst (map_set m k v)) = insert k (set (map fst m))"
    unfolding keys_map_set by auto
  then show ?thesis by simp
qed

lemma key_set_setAll: "fst ` set (setAll ops m) = fst ` set m \<union> fst ` set ops"
  unfolding setAll_def
proof (induction ops arbitrary: m)
  case Nil
  then show ?case by simp
next
  case (Cons kv ops)
  show ?case by (auto simp: Cons.IH key_set_map_set)
qed

lemma keys_setAll_present:
  "fst ` set ops \<subseteq> fst ` set m \<Longrightarrow> map fst (setAll ops m) = map fst m"
  unfolding setAll_def
proof (induction ops arbitrary: m)
  case Nil
  then show ?case by simp
next
  case (Cons kv ops)
  have k: "map fst (map_set m (fst kv) (snd kv)) = map fst m"
    using Cons.prems by (simp add: keys_map_set)
  have "fst ` set ops \<subseteq> fst ` set (map_set m (fst kv) (snd kv))"
    using Cons.prems by (auto simp: key_set_map_set)
  then show ?case using Cons.IH k by simp
qed

lemma alist_eqI:
  "distinct (map fst xs) \<Longrightarrow> map fst xs = map fst ys \<Longrightarrow> (\<And>a. map_of xs a = map_of ys a) \<Longrightarrow> xs = ys"
proof (induction xs arbitrary: ys)
  case Nil
  then show ?case by simp
next
  case (Cons x xs)
  then obtain y ys' where ys: "ys = y # ys'" by (cases ys) auto
  obtain k v where x: "x = (k, v)" by (cases x)
  obtain v' where y: "y = (k, v')" using Cons.prems(2) ys x by (cases y) auto
  have "map_of (x # xs) k = map_of ys k" using Cons.prems(3) by simp
  then have v: "v = v'" using x y ys by simp
  have keys: "map fst xs = map fst ys'" using Cons.prems(2) ys by simp
  have "k \<notin> set (map fst xs)" using Cons.prems(1) x by simp
  moreover have "set (map fst ys') = set (map fst xs)" using keys by simp
  ultimately have nk: "k \<notin> fst ` set xs" "k \<notin> fst ` set ys'"
    by simp_all
  have "map_of xs a = map_of ys' a" for a
  proof (cases "a = k")
    case True
    then show ?thesis using nk by (simp add: map_of_eq_None_iff[THEN iffD2])
  next
    case False
    then show ?thesis using Cons.prems(3)[of a] x y ys by simp
  qed
  then have "xs = ys'" using Cons.IH[OF _ keys] Cons.prems(1) by simp
  then show ?case using x y v ys by simp
qed

lemma setAll_idem:
  assumes "distinct (map fst m)"
  shows "setAll ops (setAll ops m) = setAll ops m"
proof (rule alist_eqI)
  show "distinct (map fst (setAll ops (setAll ops m)))"
    using assms by (intro distinct_setAll)
  show "map fst (setAll ops (setAll ops m)) = map fst (setAll ops m)"
    by (rule keys_setAll_present) (simp add: key_set_setAll)
  show "map_of (setAll ops (setAll ops m)) a = map_of (setAll ops m) a" for a
    by (simp add: map_of_setAll split: option.splits)
qed

lemma loadTsConfigPaths_again:
  assumes "distinct (map fst (dg_tsConfigPaths this))"
  shows "loadTsConfigPaths h (loadTsConfigPaths h this ws) ws = loadTsConfigPaths h this ws"
  using assms
  by (cases "h_tsconfig h (path_join [ws, ''tsconfig.json''])")
     (simp_all add: loadTsConfigPaths_def Let_def loadEntries_setAll setAll_idem)

lemma workspacePath_load [simp]:
  "dg_workspacePath (loadTsConfigPaths h this ws) = dg_workspacePath this"
  by (cases "h_tsconfig h (path_join [ws, ''tsconfig.json''])")
     (simp_all add: loadTsConfigPaths_def Let_def)

lemma buildGraph_cong:
  assumes "loadTsConfigPaths h (a\<lparr>dg_workspacePath := ws\<rparr>) ws = loadTsConfigPaths h (b\<lparr>dg_workspacePath := ws\<rparr>) ws"
  shows "buildGraph h a files ws = buildGraph h b files ws"
  unfolding buildGraph_def Let_def by (simp only: assms)

text \<open>
  What does hold. A \<^verbatim>\<open>DependencyGraph\<close> that has built a graph for a workspace
  builds, when asked again for the same workspace on the same host, the graph a first call
  would build, and ends in the same state: the alias table it loaded the first time is the
  table it has after loading again. The keys of a \<^verbatim>\<open>Map\<close> are distinct, and
  stay so. And the command, which constructs a new \<^verbatim>\<open>DependencyGraph\<close> for every
  run, has an outcome that does not depend on what an earlier run left behind.
\<close>

lemma rebuild_same_root:
  assumes "distinct (map fst (dg_tsConfigPaths this0))"
  shows "buildGraph h (fst (buildGraph h this0 files' workspacePath)) files workspacePath
       = buildGraph h this0 files workspacePath"
proof -
  let ?g = "loadTsConfigPaths h (this0\<lparr>dg_workspacePath := workspacePath\<rparr>) workspacePath"
  have d: "distinct (map fst (dg_tsConfigPaths (this0\<lparr>dg_workspacePath := workspacePath\<rparr>)))"
    using assms by simp
  have e: "?g\<lparr>dg_workspacePath := workspacePath\<rparr> = ?g"
    by (rule DependencyGraph.equality) simp_all
  have "loadTsConfigPaths h (?g\<lparr>dg_workspacePath := workspacePath\<rparr>) workspacePath = ?g"
    unfolding e by (rule loadTsConfigPaths_again[OF d])
  then show ?thesis
    by (intro buildGraph_cong) (simp only: fst_buildGraph)
qed

lemma distinct_aliases_kept:
  "distinct (map fst (dg_tsConfigPaths this0)) \<Longrightarrow>
     distinct (map fst (dg_tsConfigPaths (fst (buildGraph h this0 files workspacePath))))"
  by (cases "h_tsconfig h (path_join [workspacePath, ''tsconfig.json''])")
     (simp_all add: fst_buildGraph loadTsConfigPaths_def Let_def loadEntries_setAll distinct_setAll)

lemma command_ignores_session:
  "snd (showVisualization h folders currentPanel) = snd (showVisualization h folders currentPanel')"
  by (simp add: showVisualization_def Let_def split: list.splits sum.splits)


end
